theory Spec2Isabelle
  imports Main "HOL-Library.Sublist" "HOL-Library.Multiset"
begin

section \<open>Text and the string operations of the script\<close>

text \<open>
  \<^verbatim>\<open>fix_configs.py\<close> reads every \<^verbatim>\<open>.cs\<close> entry of one directory, applies four
  \<^verbatim>\<open>str.replace\<close> calls in a row and writes the file back when the text changed.

  A text is a \<^typ>\<open>string\<close>: the sequence of characters that \<^verbatim>\<open>f.read()\<close> returns. The
  four patterns and their replacements are ASCII, so a text can equally be read as the
  sequence of its UTF-8 code units: an ASCII pattern matches at the same places in both.

  \<^verbatim>\<open>s.replace(old, new)\<close> scans \<^verbatim>\<open>s\<close> from the left. Where \<^verbatim>\<open>old\<close> starts it emits
  \<^verbatim>\<open>new\<close> and goes on behind the occurrence; elsewhere it copies one character.
  \<open>replace_from\<close> is that scan for a non-empty \<^verbatim>\<open>old\<close>: at \<open>c # s\<close> an occurrence of
  \<open>old\<close> covers \<open>c\<close> and the next \<open>length old - 1\<close> characters of \<open>s\<close>.
  For the empty pattern Python puts \<^verbatim>\<open>new\<close> before every character and at the end.
\<close>

fun replace_from :: "string \<Rightarrow> string \<Rightarrow> string \<Rightarrow> string" where
  "replace_from old new [] = []"
| "replace_from old new (c # s) =
     (if prefix old (c # s) then new @ replace_from old new (drop (length old - 1) s)
      else c # replace_from old new s)"

definition str_replace :: "string \<Rightarrow> string \<Rightarrow> string \<Rightarrow> string" where
  "str_replace s old new =
     (if old = [] then new @ concat (map (\<lambda>c. c # new) s) else replace_from old new s)"

text \<open>\<^verbatim>\<open>s.endswith(suf)\<close>: the last \<open>length suf\<close> characters of \<open>s\<close> are \<open>suf\<close>.\<close>

definition endswith :: "string \<Rightarrow> string \<Rightarrow> bool" where
  "endswith s suf = (length suf \<le> length s \<and> drop (length s - length suf) s = suf)"

subsection \<open>The four replacements (lines 19 to 26)\<close>

definition pat_getutcdate :: string where
  \<open>pat_getutcdate = ''GETUTCDATE()''\<close>

definition new_now :: string where
  \<open>new_now = ''NOW()''\<close>

definition pat_datetime :: string where
  \<open>pat_datetime = ''HasColumnType("datetime")''\<close>

definition new_timestamptz :: string where
  \<open>new_timestamptz = ''HasColumnType("timestamp with time zone")''\<close>

definition pat_nvarchar_upper :: string where
  \<open>pat_nvarchar_upper = ''HasColumnType("NVARCHAR(MAX)")''\<close>

definition pat_nvarchar_lower :: string where
  \<open>pat_nvarchar_lower = ''HasColumnType("nvarchar(max)")''\<close>

definition new_text :: string where
  \<open>new_text = ''HasColumnType("text")''\<close>

text \<open>
  The body of the loop between reading and comparing: the variable \<^verbatim>\<open>content\<close> is
  reassigned four times, each call taking the value the previous one left.
\<close>

definition fix_content :: "string \<Rightarrow> string" where
  "fix_content original_content =
     (let content = str_replace original_content pat_getutcdate new_now;
          content = str_replace content pat_datetime new_timestamptz;
          content = str_replace content pat_nvarchar_upper new_text;
          content = str_replace content pat_nvarchar_lower new_text
      in content)"

subsection \<open>The specification's \<open>apply_rules\<close>\<close>

text \<open>
  The specification describes the same step as a left fold of replace-all operations over
  an ordered list of (pattern, replacement) pairs. \<open>apply_rules\<close> follows those words; the
  rule list is the one the specification fixes.
\<close>

definition rules :: "(string \<times> string) list" where
  "rules =
     [(pat_getutcdate, new_now),
      (pat_datetime, new_timestamptz),
      (pat_nvarchar_upper, new_text),
      (pat_nvarchar_lower, new_text)]"

definition apply_rules :: "string \<Rightarrow> (string \<times> string) list \<Rightarrow> string" where
  "apply_rules txt rs = foldl (\<lambda>acc (pat, new). str_replace acc pat new) txt rs"

subsection \<open>Counting and overlap of occurrences\<close>

text \<open>
  \<open>occurrences p s\<close> is the number of positions of \<open>s\<close> at which \<open>p\<close> starts, so
  "\<open>s\<close> contains exactly one occurrence of \<open>p\<close>" is \<open>occurrences p s = 1\<close>.
\<close>

fun occurrences :: "string \<Rightarrow> string \<Rightarrow> nat" where
  "occurrences p [] = 0"
| "occurrences p (c # s) = (if prefix p (c # s) then 1 else 0) + occurrences p s"

text \<open>
  \<open>clash_free a b\<close>: no non-empty suffix of \<open>b\<close> is a prefix of \<open>a\<close> or has \<open>a\<close> as a
  prefix. \<open>apart q new\<close>: an occurrence of \<open>q\<close> and a written copy of \<open>new\<close> can never
  share a character, whichever of the two starts first.
\<close>

fun clash_free :: "string \<Rightarrow> string \<Rightarrow> bool" where
  "clash_free a [] = True"
| "clash_free a (c # b) = (\<not> prefix a (c # b) \<and> \<not> prefix (c # b) a \<and> clash_free a b)"

definition apart :: "string \<Rightarrow> string \<Rightarrow> bool" where
  "apart q new = (q \<noteq> [] \<and> clash_free q new \<and> clash_free new (tl q))"

subsection \<open>Spellings that differ in case\<close>

text \<open>
  For the statement about case: \<open>ascii_lower\<close> maps the 26 capital letters to the small
  ones and leaves every other character. A \<open>mixed_case_variant\<close> is a text that reads as
  the \<^verbatim>\<open>nvarchar(max)\<close> pattern when case is ignored and is neither of the two spellings
  the rules name. \<open>pattern_free\<close>: none of the four patterns occurs.
\<close>

definition ascii_lower :: "char \<Rightarrow> char" where
  "ascii_lower c =
     (case map_of (zip ''ABCDEFGHIJKLMNOPQRSTUVWXYZ'' ''abcdefghijklmnopqrstuvwxyz'') c of
        Some l \<Rightarrow> l
      | None \<Rightarrow> c)"

definition mixed_case_variant :: "string \<Rightarrow> bool" where
  "mixed_case_variant m =
     (map ascii_lower m = map ascii_lower pat_nvarchar_lower
      \<and> m \<noteq> pat_nvarchar_upper \<and> m \<noteq> pat_nvarchar_lower)"

definition pattern_free :: "string \<Rightarrow> bool" where
  "pattern_free c =
     (\<not> sublist pat_getutcdate c \<and> \<not> sublist pat_datetime c
      \<and> \<not> sublist pat_nvarchar_upper c \<and> \<not> sublist pat_nvarchar_lower c)"

section \<open>The directory and the run\<close>

text \<open>
  The script works in one directory, \<^verbatim>\<open>config_dir\<close>. \<open>listdir\<close> is what
  \<^verbatim>\<open>os.listdir(config_dir)\<close> does: it raises, or it returns the names of the entries in
  some order. \<open>entry\<close> gives the entry behind a name. A regular file carries its two
  permissions and its text; \<open>None\<close> stands for bytes that are not valid UTF-8, on which
  \<^verbatim>\<open>f.read()\<close> raises. \<^verbatim>\<open>os.listdir\<close> returns names only, whatever the kind of entry.

  The text of a file is what \<^verbatim>\<open>f.read()\<close> returns for it, and after \<^verbatim>\<open>f.write(content)\<close>
  it is \<^verbatim>\<open>content\<close>; the bytes behind it (the encoding, the line ends) are not modelled.
  Every name has an entry of its own: two names of the directory never stand for the
  same file. Nothing else changes the directory while the script runs.
\<close>

datatype io_error =
  FileNotFoundError | NotADirectoryError | PermissionError | IsADirectoryError
  | UnicodeDecodeError

datatype node = Regular (may_read: bool) (may_write: bool) (decoded: "string option") | Directory

type_synonym files = "string \<Rightarrow> node option"

record directory =
  listdir :: "io_error + string list"
  entry :: files

text \<open>
  What a run does to the outside is a sequence of events, in the order of the calls:
  the listing, every \<^verbatim>\<open>open\<close> for reading or for writing (whether it succeeds or raises),
  and every \<^verbatim>\<open>print\<close> with its argument. An uncaught exception ends the script:
  the outcome \<open>Raised e\<close>, with the files and the events as they are at that moment.
\<close>

datatype event = Listdir | OpenRead string | OpenWrite string | Print string

datatype outcome = Completed | Raised io_error

text \<open>Line 8: \<^verbatim>\<open>[f for f in os.listdir(config_dir) if f.endswith('.cs')]\<close>.\<close>

definition cs_files :: "string list \<Rightarrow> string list" where
  "cs_files names = [f \<leftarrow> names. endswith f ''.cs'']"

text \<open>Lines 13 and 14: open for reading, read and decode the whole file.\<close>

definition load :: "files \<Rightarrow> string \<Rightarrow> io_error + string" where
  "load fs filename =
     (case fs filename of
        None \<Rightarrow> Inl FileNotFoundError
      | Some Directory \<Rightarrow> Inl IsADirectoryError
      | Some (Regular r w t) \<Rightarrow>
          (if \<not> r then Inl PermissionError
           else case t of None \<Rightarrow> Inl UnicodeDecodeError | Some content \<Rightarrow> Inr content))"

text \<open>
  Lines 30 and 31: open for writing and write. Mode \<^verbatim>\<open>'w'\<close> replaces the text of an
  existing file and creates a missing one.
\<close>

definition store :: "files \<Rightarrow> string \<Rightarrow> string \<Rightarrow> io_error + files" where
  "store fs filename content =
     (case fs filename of
        None \<Rightarrow> Inr (fs(filename \<mapsto> Regular True True (Some content)))
      | Some Directory \<Rightarrow> Inl IsADirectoryError
      | Some (Regular r w t) \<Rightarrow>
          (if w then Inr (fs(filename \<mapsto> Regular r w (Some content)))
           else Inl PermissionError))"

text \<open>Lines 29 to 32: the comparison, the write and the report.\<close>

definition maybe_write :: "files \<Rightarrow> string \<Rightarrow> string \<Rightarrow> string \<Rightarrow> outcome \<times> files \<times> event list" where
  "maybe_write fs filename original_content content =
     (if content \<noteq> original_content then
        (case store fs filename content of
           Inl e \<Rightarrow> (Raised e, fs, [OpenWrite filename])
         | Inr fs' \<Rightarrow> (Completed, fs', [OpenWrite filename, Print (''Fixed: '' @ filename)]))
      else (Completed, fs, []))"

text \<open>Lines 11 to 32: the body of the loop for one file name.\<close>

definition process_file :: "files \<Rightarrow> string \<Rightarrow> outcome \<times> files \<times> event list" where
  "process_file fs filename =
     (case load fs filename of
        Inl e \<Rightarrow> (Raised e, fs, [OpenRead filename])
      | Inr original_content \<Rightarrow>
          (case maybe_write fs filename original_content (fix_content original_content) of
             (oc, fs', evs) \<Rightarrow> (oc, fs', OpenRead filename # evs)))"

text \<open>Line 10: the loop over the candidates; an exception leaves it at once.\<close>

fun run_files :: "files \<Rightarrow> string list \<Rightarrow> outcome \<times> files \<times> event list" where
  "run_files fs [] = (Completed, fs, [])"
| "run_files fs (filename # rest) =
     (case process_file fs filename of
        (Raised e, fs', evs) \<Rightarrow> (Raised e, fs', evs)
      | (Completed, fs', evs) \<Rightarrow>
          (case run_files fs' rest of (oc, fs'', evs') \<Rightarrow> (oc, fs'', evs @ evs')))"

text \<open>Line 34: the argument of the last \<^verbatim>\<open>print\<close> starts with a newline.\<close>

definition done_message :: string where
  "done_message = CHR 0x0A # ''Done! All basic PostgreSQL fixes applied.''"

text \<open>The whole script.\<close>

definition run :: "directory \<Rightarrow> outcome \<times> files \<times> event list" where
  "run d =
     (case listdir d of
        Inl e \<Rightarrow> (Raised e, entry d, [Listdir])
      | Inr names \<Rightarrow>
          (case run_files (entry d) (cs_files names) of
             (Raised e, fs', evs) \<Rightarrow> (Raised e, fs', Listdir # evs)
           | (Completed, fs', evs) \<Rightarrow> (Completed, fs', Listdir # evs @ [Print done_message])))"

subsection \<open>Reading a trace\<close>

text \<open>
  The arguments of the \<^verbatim>\<open>print\<close> calls of a trace, the names it reports as fixed (the
  argument of a print behind \<^verbatim>\<open>Fixed: \<close>, seven characters), and the names it opened for
  writing and for reading, each in the order of the calls.
\<close>

fun printed :: "event list \<Rightarrow> string list" where
  "printed [] = []"
| "printed (Print s # evs) = s # printed evs"
| "printed (e # evs) = printed evs"

fun fixed_names :: "event list \<Rightarrow> string list" where
  "fixed_names [] = []"
| "fixed_names (Print s # evs) =
     (if prefix ''Fixed: '' s then drop 7 s # fixed_names evs else fixed_names evs)"
| "fixed_names (e # evs) = fixed_names evs"

fun opened_for_writing :: "event list \<Rightarrow> string list" where
  "opened_for_writing [] = []"
| "opened_for_writing (OpenWrite n # evs) = n # opened_for_writing evs"
| "opened_for_writing (e # evs) = opened_for_writing evs"

fun opened_for_reading :: "event list \<Rightarrow> string list" where
  "opened_for_reading [] = []"
| "opened_for_reading (OpenRead n # evs) = n # opened_for_reading evs"
| "opened_for_reading (e # evs) = opened_for_reading evs"

subsection \<open>What one step does to an entry\<close>

text \<open>
  These describe the loop body from outside, for the statements below; the proofs relate
  them to \<open>process_file\<close>. \<open>needs_fix\<close>: the file can be read and the transform changes
  its text. \<open>can_process\<close>: the step will not raise, that is, the entry is a readable
  file with a text, writable unless the transform leaves the text alone. \<open>fix_node\<close>: the
  entry such a step leaves. \<open>patched fs S\<close>: the files after such a step on every name
  of \<open>S\<close>.
\<close>

definition needs_fix :: "files \<Rightarrow> string \<Rightarrow> bool" where
  "needs_fix fs filename =
     (case load fs filename of Inl e \<Rightarrow> False | Inr content \<Rightarrow> fix_content content \<noteq> content)"

definition can_process :: "files \<Rightarrow> string \<Rightarrow> bool" where
  "can_process fs filename =
     (case fs filename of
        Some (Regular r w (Some content)) \<Rightarrow> r \<and> (w \<or> fix_content content = content)
      | _ \<Rightarrow> False)"

definition fix_node :: "node option \<Rightarrow> node option" where
  "fix_node x =
     (case x of
        Some (Regular r w (Some content)) \<Rightarrow> Some (Regular r w (Some (fix_content content)))
      | _ \<Rightarrow> x)"

definition patched :: "files \<Rightarrow> string set \<Rightarrow> files" where
  "patched fs S = (\<lambda>n. if n \<in> S then fix_node (fs n) else fs n)"

subsection \<open>Example texts and directories\<close>

text \<open>
  The specification's example scenario: \<^verbatim>\<open>A.cs\<close> with a \<^verbatim>\<open>datetime\<close> column and a
  \<^verbatim>\<open>GETUTCDATE()\<close> default, \<^verbatim>\<open>B.cs\<close> with nothing to fix; next to them a file whose name
  does not end with \<^verbatim>\<open>.cs\<close>.
\<close>

definition text_a :: string where
  \<open>text_a = ''col.HasColumnType("datetime").HasDefaultValueSql("GETUTCDATE()")''\<close>

definition text_a_fixed :: string where
  \<open>text_a_fixed = ''col.HasColumnType("timestamp with time zone").HasDefaultValueSql("NOW()")''\<close>

definition text_b :: string where
  \<open>text_b = ''col.HasColumnType("int")''\<close>

definition example_files :: files where
  "example_files =
     [''A.cs'' \<mapsto> Regular True True (Some text_a),
      ''B.cs'' \<mapsto> Regular True True (Some text_b),
      ''notes.txt'' \<mapsto> Regular True True (Some pat_getutcdate)]"

definition example_dir :: directory where
  "example_dir = \<lparr>listdir = Inr [''A.cs'', ''notes.txt'', ''B.cs''], entry = example_files\<rparr>"

text \<open>Two single lines of a mapping file.\<close>

definition text_mixed_case :: string where
  \<open>text_mixed_case = ''b.Property(e => e.Bio).HasColumnType("NVarchar(Max)");''\<close>

definition text_default :: string where
  \<open>text_default = ''b.Property(e => e.At).HasDefaultValueSql("GETUTCDATE()");''\<close>


text \<open>A directory in which no name ends with \<^verbatim>\<open>.cs\<close>.\<close>

definition dir_without_cs :: directory where
  "dir_without_cs =
     \<lparr>listdir = Inr [''README.md'', ''A.cs.bak'', ''cs''],
      entry = [''README.md'' \<mapsto> Regular True True (Some pat_getutcdate),
               ''A.cs.bak'' \<mapsto> Regular True True (Some text_a),
               ''cs'' \<mapsto> Directory]\<rparr>"

text \<open>
  Failures: a file that can be read and not written; a directory with a file to fix
  and a file that cannot be read, and its files once \<^verbatim>\<open>A.cs\<close> is rewritten; a
  directory that does not exist.
\<close>

definition readonly_files :: files where
  "readonly_files = [''A.cs'' \<mapsto> Regular True False (Some text_a)]"

definition dir_ab :: directory where
  "dir_ab =
     \<lparr>listdir = Inr [''A.cs'', ''Z.cs''],
      entry = [''A.cs'' \<mapsto> Regular True True (Some text_a),
               ''Z.cs'' \<mapsto> Regular False True (Some text_a)]\<rparr>"

definition files_ab_fixed :: files where
  "files_ab_fixed = (entry dir_ab)(''A.cs'' \<mapsto> Regular True True (Some text_a_fixed))"

definition dir_missing :: directory where
  "dir_missing = \<lparr>listdir = Inl FileNotFoundError, entry = Map.empty\<rparr>"

section \<open>Occurrences\<close>

text \<open>
  \<open>sublist p s\<close> (from the library) says that \<open>p\<close> occurs in \<open>s\<close>: \<open>s = u @ p @ v\<close> for
  some \<open>u\<close> and \<open>v\<close>.
\<close>

lemma prefix_append_short:
  "length p \<le> length a \<Longrightarrow> prefix p (a @ b) \<Longrightarrow> prefix p a"
  by (auto simp: prefix_append)

lemma replace_from_absent:
  "\<not> sublist old s \<Longrightarrow> replace_from old new s = s"
  by (induction s) (auto simp: sublist_Cons_right)

lemma replace_from_at_occurrence:
  assumes "old \<noteq> []"
  shows "replace_from old new (old @ v) = new @ replace_from old new v"
proof -
  from assms obtain c p' where p: "old = c # p'" by (cases old) auto
  then show ?thesis by simp
qed

lemma replace_from_leftmost:
  assumes "old \<noteq> []" and "\<not> sublist old (u @ butlast old)"
  shows "replace_from old new (u @ old @ v) = u @ new @ replace_from old new v"
  using assms(2)
proof (induction u)
  case Nil
  show ?case using replace_from_at_occurrence [OF assms(1)] by simp
next
  case (Cons a u)
  have split: "a # u @ old @ v = (a # u @ butlast old) @ (last old # v)"
    using assms(1) by simp
  have len: "length old \<le> length (a # u @ butlast old)"
    using assms(1) by (cases old) auto
  have "\<not> prefix old (a # u @ butlast old)"
    using Cons.prems by (auto simp: sublist_Cons_right)
  then have np: "\<not> prefix old (a # u @ old @ v)"
    using prefix_append_short [OF len] unfolding split by blast
  have "\<not> sublist old (u @ butlast old)"
    using Cons.prems by (auto simp: sublist_Cons_right)
  then have "replace_from old new (u @ old @ v) = u @ new @ replace_from old new v"
    by (rule Cons.IH)
  with np show ?case by simp
qed

subsection \<open>A replacement creates no occurrence\<close>

text \<open>
  If \<open>q\<close> and \<open>new\<close> are \<open>apart\<close>, an occurrence of \<open>q\<close> in the output of
  \<open>replace_from old new\<close> lies in copied characters only, so it was already in the input,
  at a place the scan copied. For \<open>q = old\<close> there is no such place.
\<close>

lemma not_prefix_append:
  "\<not> prefix q a \<Longrightarrow> \<not> prefix a q \<Longrightarrow> \<not> prefix q (a @ t)"
  by (auto simp: prefix_append)

lemma sublist_append_drop:
  "q \<noteq> [] \<Longrightarrow> clash_free q x \<Longrightarrow> sublist q (x @ t) \<Longrightarrow> sublist q t"
proof (induction x)
  case Nil then show ?case by simp
next
  case (Cons a x)
  from Cons.prems(2) have np: "\<not> prefix q (a # x)" "\<not> prefix (a # x) q" and cf: "clash_free q x"
    by auto
  have "\<not> prefix q ((a # x) @ t)"
    using np by (rule not_prefix_append)
  with Cons.prems(1,3) have "sublist q (x @ t)"
    by (cases q) (auto simp: sublist_Cons_right)
  with Cons.IH Cons.prems(1) cf show ?case by blast
qed

lemma prefix_replace_from_back:
  "clash_free new w \<Longrightarrow> prefix w (replace_from old new s) \<Longrightarrow> prefix w s"
proof (induction old new s arbitrary: w rule: replace_from.induct)
  case (1 old new)
  then show ?case by simp
next
  case (2 old new c s)
  show ?case
  proof (cases w)
    case Nil then show ?thesis by simp
  next
    case (Cons a w')
    with "2.prems"(1) have np: "\<not> prefix new w" "\<not> prefix w new" and cf: "clash_free new w'"
      by auto
    show ?thesis
    proof (cases "prefix old (c # s)")
      case True
      with "2.prems"(2) have "prefix w (new @ replace_from old new (drop (length old - 1) s))"
        by simp
      with not_prefix_append [OF np(2) np(1)] show ?thesis by blast
    next
      case False
      with "2.prems"(2) Cons have "a = c" "prefix w' (replace_from old new s)" by auto
      with "2.IH"(2) [OF False cf] Cons show ?thesis by simp
    qed
  qed
qed

lemma no_occurrence_after_replace:
  assumes ap: "apart q new" and h: "q = old \<or> \<not> sublist q s"
  shows "\<not> sublist q (replace_from old new s)"
  using ap h
proof (induction old new s rule: replace_from.induct)
  case (1 old new)
  then show ?case by (simp add: apart_def)
next
  case (2 old new c s)
  note ap = "2.prems"(1)
  from ap have qne: "q \<noteq> []" and cf1: "clash_free q new" and cf2: "clash_free new (tl q)"
    by (auto simp: apart_def)
  show ?case
  proof (cases "prefix old (c # s)")
    case True
    have "q = old \<or> \<not> sublist q (drop (length old - 1) s)"
    proof (cases "q = old")
      case True then show ?thesis by simp
    next
      case False
      with "2.prems"(2) have ns: "\<not> sublist q (c # s)" by simp
      have "sublist (drop (length old - 1) s) (c # s)"
        by (metis sublist_Cons_right sublist_drop)
      with ns show ?thesis using sublist_order.order_trans by blast
    qed
    then have "\<not> sublist q (replace_from old new (drop (length old - 1) s))"
      by (rule "2.IH"(1) [OF True ap])
    with sublist_append_drop [OF qne cf1] True show ?thesis by auto
  next
    case False
    have "q = old \<or> \<not> sublist q s"
      using "2.prems"(2) by (auto simp: sublist_Cons_right)
    then have ih: "\<not> sublist q (replace_from old new s)" by (rule "2.IH"(2) [OF False ap])
    have "\<not> prefix q (c # replace_from old new s)"
    proof
      assume pq: "prefix q (c # replace_from old new s)"
      from qne obtain a q' where q: "q = a # q'" by (cases q) auto
      with pq have "a = c" "prefix q' (replace_from old new s)" by auto
      moreover from cf2 q have "clash_free new q'" by simp
      ultimately have "prefix q' s" using prefix_replace_from_back by blast
      with \<open>a = c\<close> q have pq': "prefix q (c # s)" by simp
      with False have "q \<noteq> old" by auto
      with "2.prems"(2) have "\<not> sublist q (c # s)" by simp
      with pq' show False by (simp add: sublist_Cons_right)
    qed
    with ih False qne show ?thesis by (cases q) (auto simp: sublist_Cons_right)
  qed
qed

subsection \<open>The four rules\<close>

lemmas pattern_defs =
  pat_getutcdate_def new_now_def pat_datetime_def new_timestamptz_def
  pat_nvarchar_upper_def pat_nvarchar_lower_def new_text_def

lemma patterns_nonempty:
  "pat_getutcdate \<noteq> []" "pat_datetime \<noteq> []" "pat_nvarchar_upper \<noteq> []" "pat_nvarchar_lower \<noteq> []"
  by (simp_all add: pattern_defs)

lemma apart_getutcdate:
  "apart pat_getutcdate new_now" "apart pat_getutcdate new_timestamptz"
  "apart pat_getutcdate new_text"
  by (simp_all add: apart_def pattern_defs)

lemma apart_datetime:
  "apart pat_datetime new_now" "apart pat_datetime new_timestamptz" "apart pat_datetime new_text"
  by (simp_all add: apart_def pattern_defs)

lemma apart_nvarchar_upper:
  "apart pat_nvarchar_upper new_now" "apart pat_nvarchar_upper new_timestamptz" "apart pat_nvarchar_upper new_text"
  by (simp_all add: apart_def pattern_defs)

lemma apart_nvarchar_lower:
  "apart pat_nvarchar_lower new_now" "apart pat_nvarchar_lower new_timestamptz" "apart pat_nvarchar_lower new_text"
  by (simp_all add: apart_def pattern_defs)

lemma str_replace_removes:
  "old \<noteq> [] \<Longrightarrow> apart old new \<Longrightarrow> \<not> sublist old (str_replace s old new)"
  by (simp add: str_replace_def no_occurrence_after_replace)

lemma str_replace_keeps_absent:
  "old \<noteq> [] \<Longrightarrow> apart q new \<Longrightarrow> \<not> sublist q s \<Longrightarrow> \<not> sublist q (str_replace s old new)"
  by (simp add: str_replace_def no_occurrence_after_replace)

lemma str_replace_absent:
  "old \<noteq> [] \<Longrightarrow> \<not> sublist old s \<Longrightarrow> str_replace s old new = s"
  by (simp add: str_replace_def replace_from_absent)

lemma fix_content_unfold:
  "fix_content s =
     str_replace (str_replace (str_replace (str_replace s
       pat_getutcdate new_now) pat_datetime new_timestamptz)
       pat_nvarchar_upper new_text) pat_nvarchar_lower new_text"
  by (simp add: fix_content_def Let_def)

lemma fix_content_absent:
  assumes "\<not> sublist pat_getutcdate s" "\<not> sublist pat_datetime s"
    "\<not> sublist pat_nvarchar_upper s" "\<not> sublist pat_nvarchar_lower s"
  shows "fix_content s = s"
  using assms by (simp add: fix_content_unfold str_replace_absent patterns_nonempty)

lemma fix_content_free:
  shows "\<not> sublist pat_getutcdate (fix_content s)"
    and "\<not> sublist pat_datetime (fix_content s)"
    and "\<not> sublist pat_nvarchar_upper (fix_content s)"
    and "\<not> sublist pat_nvarchar_lower (fix_content s)"
proof -
  let ?s1 = "str_replace s pat_getutcdate new_now"
  let ?s2 = "str_replace ?s1 pat_datetime new_timestamptz"
  let ?s3 = "str_replace ?s2 pat_nvarchar_upper new_text"
  let ?s4 = "str_replace ?s3 pat_nvarchar_lower new_text"
  have a1: "\<not> sublist pat_getutcdate ?s1"
    by (rule str_replace_removes [OF patterns_nonempty(1) apart_getutcdate(1)])
  have a2: "\<not> sublist pat_getutcdate ?s2"
    by (rule str_replace_keeps_absent [OF patterns_nonempty(2) apart_getutcdate(2) a1])
  have a3: "\<not> sublist pat_getutcdate ?s3"
    by (rule str_replace_keeps_absent [OF patterns_nonempty(3) apart_getutcdate(3) a2])
  have a4: "\<not> sublist pat_getutcdate ?s4"
    by (rule str_replace_keeps_absent [OF patterns_nonempty(4) apart_getutcdate(3) a3])
  have b2: "\<not> sublist pat_datetime ?s2"
    by (rule str_replace_removes [OF patterns_nonempty(2) apart_datetime(2)])
  have b3: "\<not> sublist pat_datetime ?s3"
    by (rule str_replace_keeps_absent [OF patterns_nonempty(3) apart_datetime(3) b2])
  have b4: "\<not> sublist pat_datetime ?s4"
    by (rule str_replace_keeps_absent [OF patterns_nonempty(4) apart_datetime(3) b3])
  have c3: "\<not> sublist pat_nvarchar_upper ?s3"
    by (rule str_replace_removes [OF patterns_nonempty(3) apart_nvarchar_upper(3)])
  have c4: "\<not> sublist pat_nvarchar_upper ?s4"
    by (rule str_replace_keeps_absent [OF patterns_nonempty(4) apart_nvarchar_upper(3) c3])
  have d4: "\<not> sublist pat_nvarchar_lower ?s4"
    by (rule str_replace_removes [OF patterns_nonempty(4) apart_nvarchar_lower(3)])
  show "\<not> sublist pat_getutcdate (fix_content s)" unfolding fix_content_unfold by (rule a4)
  show "\<not> sublist pat_datetime (fix_content s)" unfolding fix_content_unfold by (rule b4)
  show "\<not> sublist pat_nvarchar_upper (fix_content s)" unfolding fix_content_unfold by (rule c4)
  show "\<not> sublist pat_nvarchar_lower (fix_content s)" unfolding fix_content_unfold by (rule d4)
qed

lemma fix_content_twice: "fix_content (fix_content s) = fix_content s"
  by (rule fix_content_absent) (rule fix_content_free)+

subsection \<open>A single occurrence\<close>

lemma occurrences_zero: "p \<noteq> [] \<Longrightarrow> occurrences p s = 0 \<longleftrightarrow> \<not> sublist p s"
  by (induction s) (auto simp: sublist_Cons_right)

lemma single_occurrence_split:
  assumes "p \<noteq> []" "occurrences p s = 1"
  shows "\<exists>u v. s = u @ p @ v \<and> \<not> sublist p (u @ butlast p) \<and> \<not> sublist p v"
  using assms(2)
proof (induction s)
  case Nil then show ?case by simp
next
  case (Cons c s)
  show ?case
  proof (cases "prefix p (c # s)")
    case True
    then obtain v where v: "c # s = p @ v" by (auto simp: prefix_def)
    from True Cons.prems have "occurrences p s = 0" by simp
    then have ns: "\<not> sublist p s" using occurrences_zero [OF assms(1)] by simp
    have "sublist v s"
      using v assms(1) by (cases p) (auto intro: sublist_appendI)
    with ns have nv: "\<not> sublist p v" using sublist_order.order_trans by blast
    have "\<not> sublist p (butlast p)"
      using assms(1) by (metis length_butlast sublist_length_le diff_less length_greater_0_conv
          less_numeral_extra(1) not_le)
    with v nv show ?thesis by (intro exI [of _ "[]"] exI [of _ v]) simp
  next
    case False
    with Cons.prems have "occurrences p s = 1" by simp
    from Cons.IH [OF this] obtain u v where
      uv: "s = u @ p @ v" "\<not> sublist p (u @ butlast p)" "\<not> sublist p v" by blast
    have len: "length p \<le> length (c # u @ butlast p)" using assms(1) by (cases p) auto
    have sp: "c # s = (c # u @ butlast p) @ (last p # v)" using uv(1) assms(1) by simp
    have "\<not> prefix p (c # u @ butlast p)"
    proof
      assume "prefix p (c # u @ butlast p)"
      then have "prefix p ((c # u @ butlast p) @ (last p # v))" by (rule prefix_prefix)
      with False sp show False by simp
    qed
    with uv(2) have "\<not> sublist p ((c # u) @ butlast p)" by (simp add: sublist_Cons_right)
    with uv show ?thesis by (intro exI [of _ "c # u"] exI [of _ v]) simp
  qed
qed

section \<open>The transform is the fold of the four rules\<close>

text \<open>
  C1. For every text, the four reassignments of \<^verbatim>\<open>content\<close> compute the left fold of
  replace-all over the four rules in their listed order, each rule reading what the
  previous one produced. Each replace-all works from the left on non-overlapping
  occurrences: a text without the pattern is returned as it is, and behind the leftmost
  occurrence (the pattern occurs nowhere earlier in \<open>u @ pat\<close>) the scan continues on the
  rest. A later rule sees the earlier rule's output: with the constructed rules
  \<^verbatim>\<open>a\<close> to \<^verbatim>\<open>b\<close>, then \<^verbatim>\<open>bb\<close> to \<^verbatim>\<open>c\<close>, the text \<^verbatim>\<open>ab\<close> becomes \<^verbatim>\<open>bb\<close> and then \<^verbatim>\<open>c\<close>: the
  second rule consumes the \<^verbatim>\<open>b\<close> that the first rule wrote.
\<close>

theorem fix_content_is_fold:
  "fix_content txt = apply_rules txt rules
   \<and> fix_content txt =
       str_replace (str_replace (str_replace (str_replace txt
         pat_getutcdate new_now) pat_datetime new_timestamptz)
         pat_nvarchar_upper new_text) pat_nvarchar_lower new_text
   \<and> (\<forall>pat new s. (pat, new) \<in> set rules \<and> \<not> sublist pat s \<longrightarrow> str_replace s pat new = s)
   \<and> (\<forall>pat new u v. (pat, new) \<in> set rules \<and> \<not> sublist pat (u @ butlast pat) \<longrightarrow>
        str_replace (u @ pat @ v) pat new = u @ new @ str_replace v pat new)
   \<and> apply_rules ''ab'' [(''a'', ''b''), (''bb'', ''c'')] = ''c''"
proof (intro conjI allI impI)
  show "apply_rules ''ab'' [(''a'', ''b''), (''bb'', ''c'')] = ''c''"
    by (simp add: apply_rules_def str_replace_def)
  show "fix_content txt = apply_rules txt rules"
    by (simp add: fix_content_def apply_rules_def rules_def Let_def)
  show "fix_content txt =
       str_replace (str_replace (str_replace (str_replace txt
         pat_getutcdate new_now) pat_datetime new_timestamptz)
         pat_nvarchar_upper new_text) pat_nvarchar_lower new_text"
    by (simp add: fix_content_def Let_def)
next
  fix pat new s
  assume "(pat, new) \<in> set rules \<and> \<not> sublist pat s"
  then show "str_replace s pat new = s"
    by (auto simp: str_replace_def replace_from_absent)
next
  fix pat new u v
  assume h: "(pat, new) \<in> set rules \<and> \<not> sublist pat (u @ butlast pat)"
  then have ne: "pat \<noteq> []" by auto
  with h show "str_replace (u @ pat @ v) pat new = u @ new @ str_replace v pat new"
    by (simp add: str_replace_def replace_from_leftmost)
qed

theorem fix_content_is_fold_witness:
  \<open>fix_content ''x.HasDefaultValueSql("GETUTCDATE()")'' =
     apply_rules ''x.HasDefaultValueSql("GETUTCDATE()")'' rules
   \<and> (pat_getutcdate, new_now) \<in> set rules
   \<and> \<not> sublist pat_getutcdate ''x.IsRequired()''
   \<and> str_replace ''x.IsRequired()'' pat_getutcdate new_now = ''x.IsRequired()''
   \<and> \<not> sublist pat_getutcdate (''Sql("'' @ butlast pat_getutcdate)
   \<and> str_replace (''Sql("'' @ pat_getutcdate @ ''")'') pat_getutcdate new_now =
       ''Sql("'' @ new_now @ str_replace ''")'' pat_getutcdate new_now\<close>
proof -
  have m: "(pat_getutcdate, new_now) \<in> set rules" by (simp add: rules_def)
  have a: \<open>\<not> sublist pat_getutcdate ''x.IsRequired()''\<close>
    by (simp add: pat_getutcdate_def sublist_code)
  have b: \<open>\<not> sublist pat_getutcdate (''Sql("'' @ butlast pat_getutcdate)\<close>
    by (simp add: pat_getutcdate_def sublist_code)
  note t = fix_content_is_fold [of \<open>''x.HasDefaultValueSql("GETUTCDATE()")''\<close>]
  from t have t1: \<open>fix_content ''x.HasDefaultValueSql("GETUTCDATE()")'' =
     apply_rules ''x.HasDefaultValueSql("GETUTCDATE()")'' rules\<close> by blast
  from t m a have t3: \<open>str_replace ''x.IsRequired()'' pat_getutcdate new_now = ''x.IsRequired()''\<close>
    by blast
  from t m b have t4: \<open>str_replace (''Sql("'' @ pat_getutcdate @ ''")'') pat_getutcdate new_now =
       ''Sql("'' @ new_now @ str_replace ''")'' pat_getutcdate new_now\<close>
    by blast
  from t1 m a t3 b t4 show ?thesis by blast
qed

section \<open>One file\<close>

text \<open>The four ways through the loop body, and what each leaves.\<close>

lemma process_file_load_error:
  "load fs n = Inl e \<Longrightarrow> process_file fs n = (Raised e, fs, [OpenRead n])"
  by (simp add: process_file_def)

lemma process_file_unchanged:
  "load fs n = Inr c \<Longrightarrow> fix_content c = c \<Longrightarrow> process_file fs n = (Completed, fs, [OpenRead n])"
  by (simp add: process_file_def maybe_write_def)

lemma process_file_store_error:
  "load fs n = Inr c \<Longrightarrow> fix_content c \<noteq> c \<Longrightarrow> store fs n (fix_content c) = Inl e \<Longrightarrow>
   process_file fs n = (Raised e, fs, [OpenRead n, OpenWrite n])"
  by (simp add: process_file_def maybe_write_def)

lemma process_file_raised:
  assumes "process_file fs n = (Raised e, fs', ev)"
  shows "fs' = fs \<and> printed ev = [] \<and> \<not> can_process fs n
         \<and> (load fs n = Inl e \<or> (\<exists>c. load fs n = Inr c \<and> fix_content c \<noteq> c
              \<and> store fs n (fix_content c) = Inl e))"
  using assms
  by (auto simp: process_file_def maybe_write_def can_process_def load_def store_def
      split: sum.splits if_splits option.splits node.splits)

lemma process_file_completed:
  assumes "process_file fs n = (Completed, fs', ev)"
  shows "can_process fs n \<and> fs' = fs(n := fix_node (fs n))
         \<and> ev = (if needs_fix fs n then [OpenRead n, OpenWrite n, Print (''Fixed: '' @ n)]
                  else [OpenRead n])"
  using assms
  by (auto simp: process_file_def maybe_write_def can_process_def load_def store_def fix_node_def
      needs_fix_def split: sum.splits if_splits option.splits node.splits)

lemma can_process_completes:
  assumes "can_process fs n"
  shows "process_file fs n = (Completed, fs(n := fix_node (fs n)),
           if needs_fix fs n then [OpenRead n, OpenWrite n, Print (''Fixed: '' @ n)]
           else [OpenRead n])"
  using assms
  by (auto simp: process_file_def maybe_write_def can_process_def load_def store_def fix_node_def
      needs_fix_def split: sum.splits if_splits option.splits node.splits)

section \<open>The loop\<close>

lemma fix_node_twice: "fix_node (fix_node x) = fix_node x"
  by (auto simp: fix_node_def fix_content_twice split: option.splits node.splits)

lemma printed_append: "printed (a @ b) = printed a @ printed b"
  by (induction a rule: printed.induct) auto

lemma fixed_names_append: "fixed_names (a @ b) = fixed_names a @ fixed_names b"
  by (induction a rule: fixed_names.induct) auto

lemma opened_for_writing_append:
  "opened_for_writing (a @ b) = opened_for_writing a @ opened_for_writing b"
  by (induction a rule: opened_for_writing.induct) auto

lemma opened_for_reading_append:
  "opened_for_reading (a @ b) = opened_for_reading a @ opened_for_reading b"
  by (induction a rule: opened_for_reading.induct) auto

text \<open>After a file was processed, processing it again finds nothing to do.\<close>

lemma can_process_after:
  "can_process fs n \<Longrightarrow> can_process (fs(n := fix_node (fs n))) m = can_process fs m"
  by (auto simp: can_process_def fix_node_def fix_content_twice split: option.splits node.splits)

lemma needs_fix_after:
  "needs_fix (fs(n := fix_node (fs n))) m = (m \<noteq> n \<and> needs_fix fs m)"
  by (auto simp: needs_fix_def load_def fix_node_def fix_content_twice
      split: option.splits node.splits sum.splits)

lemma patched_step:
  "patched (fs(n := fix_node (fs n))) (set ns) = patched fs (set (n # ns))"
  by (auto simp: patched_def fix_node_twice fun_eq_iff)

lemma run_files_completed:
  "run_files fs ns = (Completed, fs', ev) \<Longrightarrow>
     (\<forall>n\<in>set ns. can_process fs n) \<and> fs' = patched fs (set ns)"
proof (induction ns arbitrary: fs fs' ev)
  case Nil
  then show ?case by (simp add: patched_def)
next
  case (Cons n ns)
  from Cons.prems obtain fs0 ev0 ev1 where
    p: "process_file fs n = (Completed, fs0, ev0)" and
    r: "run_files fs0 ns = (Completed, fs', ev1)"
    by (auto split: prod.splits outcome.splits)
  from process_file_completed [OF p] have cp: "can_process fs n"
    and fs0: "fs0 = fs(n := fix_node (fs n))" by auto
  from Cons.IH [OF r] have a: "\<forall>m\<in>set ns. can_process fs0 m" and b: "fs' = patched fs0 (set ns)"
    by auto
  from a cp have "\<forall>m\<in>set ns. can_process fs m"
    unfolding fs0 by (simp add: can_process_after)
  moreover from b have "fs' = patched fs (set (n # ns))"
    unfolding fs0 by (simp only: patched_step)
  ultimately show ?case using cp by simp
qed

lemma run_files_completes:
  "\<forall>n\<in>set ns. can_process fs n \<Longrightarrow> \<exists>ev. run_files fs ns = (Completed, patched fs (set ns), ev)"
proof (induction ns arbitrary: fs)
  case Nil
  then show ?case by (simp add: patched_def)
next
  case (Cons n ns)
  let ?fs0 = "fs(n := fix_node (fs n))"
  from Cons.prems have cp: "can_process fs n" by simp
  from Cons.prems have "\<forall>m\<in>set ns. can_process ?fs0 m"
    by (simp add: can_process_after [OF cp])
  from Cons.IH [OF this] obtain ev where
    "run_files ?fs0 ns = (Completed, patched ?fs0 (set ns), ev)" by blast
  then show ?case
    using can_process_completes [OF cp] by (simp add: patched_step del: fun_upd_apply)
qed

subsection \<open>A run that raises, and a run over settled files\<close>

lemma process_file_raised_quiet:
  "process_file fs n = (Raised e, fs', ev) \<Longrightarrow> fixed_names ev = [] \<and> opened_for_reading ev = [n]"
  by (auto simp: process_file_def maybe_write_def split: sum.splits if_splits)

lemma run_files_append:
  "run_files fs pre = (Completed, fs1, ev1) \<Longrightarrow>
   run_files fs (pre @ rest) = (case run_files fs1 rest of (oc, fs2, ev2) \<Rightarrow> (oc, fs2, ev1 @ ev2))"
proof (induction pre arbitrary: fs ev1)
  case Nil
  then show ?case by (simp split: prod.splits)
next
  case (Cons n pre)
  from Cons.prems obtain fs0 ev0 ev' where
    p: "process_file fs n = (Completed, fs0, ev0)" and
    r: "run_files fs0 pre = (Completed, fs1, ev')" and e: "ev1 = ev0 @ ev'"
    by (auto split: prod.splits outcome.splits)
  from Cons.IH [OF r] p e show ?case by (simp split: prod.splits)
qed

lemma run_files_raised:
  "run_files fs ns = (Raised e, fs1, ev) \<Longrightarrow>
   \<exists>pre bad post ev1 ev2. ns = pre @ bad # post \<and> run_files fs pre = (Completed, fs1, ev1)
      \<and> process_file fs1 bad = (Raised e, fs1, ev2) \<and> ev = ev1 @ ev2"
proof (induction ns arbitrary: fs ev)
  case Nil
  then show ?case by simp
next
  case (Cons n ns)
  obtain oc0 fs0 ev0 where p: "process_file fs n = (oc0, fs0, ev0)"
    by (cases "process_file fs n") auto
  show ?case
  proof (cases oc0)
    case (Raised e')
    with p Cons.prems have eq: "e' = e" "fs1 = fs0" "ev = ev0" by auto
    from p Raised process_file_raised [of fs n e' fs0 ev0] have "fs0 = fs" by simp
    with p Raised eq have "process_file fs1 n = (Raised e, fs1, ev)" by simp
    moreover have "run_files fs [] = (Completed, fs, [])" by simp
    ultimately show ?thesis
      using \<open>fs0 = fs\<close> eq
      by (intro exI [of _ "[]"] exI [of _ n] exI [of _ ns] exI [of _ ev]) simp
  next
    case Completed
    with p Cons.prems obtain ev' where
      r: "run_files fs0 ns = (Raised e, fs1, ev')" and e: "ev = ev0 @ ev'"
      by (auto split: prod.splits)
    from Cons.IH [OF r] obtain pre bad post ev1 ev2 where
      h: "ns = pre @ bad # post" "run_files fs0 pre = (Completed, fs1, ev1)"
         "process_file fs1 bad = (Raised e, fs1, ev2)" "ev' = ev1 @ ev2"
      by blast
    from p Completed h(2) have "run_files fs (n # pre) = (Completed, fs1, ev0 @ ev1)" by simp
    with h e show ?thesis
      by (intro exI [of _ "n # pre"] exI [of _ bad] exI [of _ post] exI [of _ "ev0 @ ev1"]
          exI [of _ ev2]) simp
  qed
qed

lemma run_files_settled:
  "\<forall>n\<in>set ns. can_process fs n \<and> \<not> needs_fix fs n \<Longrightarrow>
   run_files fs ns = (Completed, fs, map OpenRead ns)"
proof (induction ns)
  case Nil
  then show ?case by simp
next
  case (Cons n ns)
  then have cp: "can_process fs n" and nf: "\<not> needs_fix fs n" by auto
  then have same: "fs(n := fix_node (fs n)) = fs"
    by (auto simp: can_process_def needs_fix_def load_def fix_node_def fun_eq_iff
        split: option.splits node.splits)
  from can_process_completes [OF cp] nf same
  have "process_file fs n = (Completed, fs, [OpenRead n])" by simp
  with Cons show ?case by simp
qed

lemma patched_settled_one:
  "can_process fs n \<Longrightarrow> n \<in> S \<Longrightarrow>
   can_process (patched fs S) n \<and> \<not> needs_fix (patched fs S) n"
  by (auto simp: patched_def can_process_def needs_fix_def load_def fix_node_def fix_content_twice
      split: option.splits node.splits)

lemma patched_settled:
  assumes "\<forall>n\<in>set ns. can_process fs n"
  shows "\<forall>n\<in>set ns. can_process (patched fs (set ns)) n \<and> \<not> needs_fix (patched fs (set ns)) n"
  using assms patched_settled_one by blast

lemma fixed_names_reads [simp]: "fixed_names (map OpenRead ns) = []"
  by (induction ns) auto

lemma opened_for_writing_reads [simp]: "opened_for_writing (map OpenRead ns) = []"
  by (induction ns) auto

lemma opened_for_reading_reads [simp]: "opened_for_reading (map OpenRead ns) = ns"
  by (induction ns) auto

lemma printed_reads [simp]: "printed (map OpenRead ns) = []"
  by (induction ns) auto

lemma run_files_again_completed:
  assumes "run_files fs ns = (Completed, fs1, ev)"
  shows "run_files fs1 ns = (Completed, fs1, map OpenRead ns)"
proof -
  from run_files_completed [OF assms] have cp: "\<forall>n\<in>set ns. can_process fs n"
    and fs1: "fs1 = patched fs (set ns)" by auto
  from patched_settled [OF cp] show ?thesis
    unfolding fs1 by (rule run_files_settled)
qed

lemma run_files_again:
  assumes "run_files fs ns = (oc, fs1, ev)"
  shows "\<exists>ev2. run_files fs1 ns = (oc, fs1, ev2) \<and> fixed_names ev2 = []
           \<and> (oc = Completed \<longrightarrow> ev2 = map OpenRead ns)"
proof (cases oc)
  case Completed
  with assms run_files_again_completed show ?thesis by simp
next
  case (Raised e)
  with assms have "run_files fs ns = (Raised e, fs1, ev)" by simp
  from run_files_raised [OF this] obtain pre bad post ev1 ev2 where
    h: "ns = pre @ bad # post" "run_files fs pre = (Completed, fs1, ev1)"
       "process_file fs1 bad = (Raised e, fs1, ev2)" "ev = ev1 @ ev2"
    by blast
  from run_files_again_completed [OF h(2)]
  have "run_files fs1 pre = (Completed, fs1, map OpenRead pre)" .
  from run_files_append [OF this, of "bad # post"] h(3)
  have "run_files fs1 ns = (Raised e, fs1, map OpenRead pre @ ev2)"
    unfolding h(1) by simp
  moreover have "fixed_names (map OpenRead pre @ ev2) = []"
    using process_file_raised_quiet [OF h(3)] by (simp add: fixed_names_append)
  ultimately show ?thesis using Raised by simp
qed

subsection \<open>The reports of a completed loop\<close>

lemma run_files_reports:
  "run_files fs ns = (Completed, fs', ev) \<Longrightarrow>
   distinct (fixed_names ev) \<and> set (fixed_names ev) = {n \<in> set ns. needs_fix fs n}
   \<and> opened_for_writing ev = fixed_names ev \<and> opened_for_reading ev = ns
   \<and> printed ev = map (\<lambda>n. ''Fixed: '' @ n) (fixed_names ev)"
proof (induction ns arbitrary: fs ev)
  case Nil
  then show ?case by simp
next
  case (Cons n ns)
  from Cons.prems obtain fs0 ev0 ev1 where
    p: "process_file fs n = (Completed, fs0, ev0)" and
    r: "run_files fs0 ns = (Completed, fs', ev1)" and e: "ev = ev0 @ ev1"
    by (auto split: prod.splits outcome.splits)
  from process_file_completed [OF p] have
    fs0: "fs0 = fs(n := fix_node (fs n))" and
    ev0: "ev0 = (if needs_fix fs n then [OpenRead n, OpenWrite n, Print (''Fixed: '' @ n)]
                  else [OpenRead n])" by auto
  from Cons.IH [OF r] have
    d: "distinct (fixed_names ev1)" and
    s: "set (fixed_names ev1) = {m \<in> set ns. needs_fix fs0 m}" and
    w: "opened_for_writing ev1 = fixed_names ev1" and
    rd: "opened_for_reading ev1 = ns" and
    pr: "printed ev1 = map (\<lambda>n. ''Fixed: '' @ n) (fixed_names ev1)" by auto
  from s have s': "set (fixed_names ev1) = {m \<in> set ns. m \<noteq> n \<and> needs_fix fs m}"
    unfolding fs0 by (simp only: needs_fix_after)
  show ?case
  proof (cases "needs_fix fs n")
    case True
    with ev0 have f0: "fixed_names ev0 = [n]" "opened_for_writing ev0 = [n]"
      "opened_for_reading ev0 = [n]" "printed ev0 = [''Fixed: '' @ n]" by simp_all
    from s' have "n \<notin> set (fixed_names ev1)" by simp
    moreover from s' True have "insert n (set (fixed_names ev1)) = {m \<in> set (n # ns). needs_fix fs m}"
      by auto
    ultimately show ?thesis
      using d w rd pr f0 unfolding e
      by (simp add: fixed_names_append opened_for_writing_append opened_for_reading_append
          printed_append)
  next
    case False
    with ev0 have f0: "fixed_names ev0 = []" "opened_for_writing ev0 = []"
      "opened_for_reading ev0 = [n]" "printed ev0 = []" by simp_all
    from s' False have "set (fixed_names ev1) = {m \<in> set (n # ns). needs_fix fs m}"
      by auto
    then show ?thesis
      using d w rd pr f0 unfolding e
      by (simp add: fixed_names_append opened_for_writing_append opened_for_reading_append
          printed_append)
  qed
qed

lemma run_files_raised_prints:
  assumes "run_files fs ns = (Raised e, fs', ev)"
  shows "printed ev = map (\<lambda>n. ''Fixed: '' @ n) (fixed_names ev)"
proof -
  from run_files_raised [OF assms] obtain pre bad post ev1 ev2 where
    h: "ns = pre @ bad # post" "run_files fs pre = (Completed, fs', ev1)"
       "process_file fs' bad = (Raised e, fs', ev2)" "ev = ev1 @ ev2"
    by blast
  from process_file_raised [OF h(3)] process_file_raised_quiet [OF h(3)]
  have "printed ev2 = []" "fixed_names ev2 = []" by auto
  with run_files_reports [OF h(2)] show ?thesis
    unfolding h(4) by (simp add: printed_append fixed_names_append)
qed

lemma done_message_not_fixed: "\<not> prefix ''Fixed: '' done_message"
  by (simp add: done_message_def)

lemma done_message_not_report: "done_message \<noteq> ''Fixed: '' @ n"
  by (simp add: done_message_def)

subsection \<open>The example scenario\<close>

lemma fix_text_a: "fix_content text_a = text_a_fixed"
  by (simp add: fix_content_def str_replace_def pattern_defs text_a_def text_a_fixed_def)

lemma fix_text_b: "fix_content text_b = text_b"
  by (simp add: fix_content_def str_replace_def pattern_defs text_b_def)

lemma text_a_changes: "text_a_fixed \<noteq> text_a"
  by (simp add: text_a_def text_a_fixed_def)

lemma cs_files_example: "cs_files [''A.cs'', ''notes.txt'', ''B.cs''] = [''A.cs'', ''B.cs'']"
  by (simp add: cs_files_def endswith_def)

lemma run_example:
  "run example_dir =
     (Completed, example_files(''A.cs'' \<mapsto> Regular True True (Some text_a_fixed)),
      [Listdir, OpenRead ''A.cs'', OpenWrite ''A.cs'', Print ''Fixed: A.cs'', OpenRead ''B.cs'',
       Print done_message])"
  by (simp add: run_def example_dir_def cs_files_example process_file_def load_def
      maybe_write_def store_def example_files_def fix_text_a fix_text_b text_a_changes)

section \<open>Running twice\<close>

lemma run_again:
  assumes "run d = (oc, fs1, ev)"
  shows "\<exists>ev2. run (d\<lparr>entry := fs1\<rparr>) = (oc, fs1, ev2) \<and> fixed_names ev2 = []
           \<and> (oc = Completed \<longrightarrow> opened_for_writing ev2 = [])"
proof (cases "listdir d")
  case (Inl e)
  with assms show ?thesis by (auto simp: run_def)
next
  case (Inr names)
  obtain oc' fs' ev' where r: "run_files (entry d) (cs_files names) = (oc', fs', ev')"
    by (cases "run_files (entry d) (cs_files names)") auto
  with assms Inr have eq: "oc' = oc" "fs' = fs1"
    by (auto simp: run_def split: outcome.splits)
  from run_files_again [OF r] obtain ev2 where
    r2: "run_files fs' (cs_files names) = (oc', fs', ev2)" and q: "fixed_names ev2 = []"
    and c: "oc' = Completed \<longrightarrow> ev2 = map OpenRead (cs_files names)" by blast
  show ?thesis
  proof (cases oc')
    case Completed
    with r2 eq Inr c q show ?thesis
      by (auto simp: run_def fixed_names_append opened_for_writing_append done_message_not_fixed)
  next
    case (Raised e)
    with r2 eq Inr q show ?thesis by (auto simp: run_def)
  qed
qed

text \<open>
  C2. The transform is idempotent: applying the four rules to an already transformed
  text returns it unchanged. Hence a second run over the directory the first run left
  changes no file and reports no file as fixed; it ends as the first run ended, and when
  the first run completed it does not even open a file for writing.
\<close>

theorem fix_content_idempotent:
  "fix_content (fix_content txt) = fix_content txt
   \<and> (\<forall>oc fs1 ev. run d = (oc, fs1, ev) \<longrightarrow>
        (\<exists>ev2. run (d\<lparr>entry := fs1\<rparr>) = (oc, fs1, ev2) \<and> fixed_names ev2 = []
           \<and> (oc = Completed \<longrightarrow> opened_for_writing ev2 = [])))"
  using fix_content_twice run_again by blast

theorem fix_content_idempotent_witness:
  "fix_content (fix_content text_a) = fix_content text_a
   \<and> run example_dir =
       (Completed, example_files(''A.cs'' \<mapsto> Regular True True (Some text_a_fixed)),
        [Listdir, OpenRead ''A.cs'', OpenWrite ''A.cs'', Print ''Fixed: A.cs'', OpenRead ''B.cs'',
         Print done_message])
   \<and> (\<exists>ev2. run (example_dir\<lparr>entry := example_files(''A.cs'' \<mapsto> Regular True True (Some text_a_fixed))\<rparr>) =
          (Completed, example_files(''A.cs'' \<mapsto> Regular True True (Some text_a_fixed)), ev2)
        \<and> fixed_names ev2 = [] \<and> opened_for_writing ev2 = [])"
  using fix_content_idempotent [of text_a example_dir] run_example by simp

section \<open>Files without a pattern\<close>

lemma process_file_frame:
  "process_file fs m = (oc, fs0, ev0) \<Longrightarrow>
   set (fixed_names ev0) \<subseteq> {m} \<and> set (opened_for_writing ev0) \<subseteq> {m}
   \<and> (\<forall>k. k \<noteq> m \<longrightarrow> fs0 k = fs k)"
  by (auto simp: process_file_def maybe_write_def store_def
      split: sum.splits if_splits option.splits node.splits)

lemma run_files_untouched:
  "run_files fs ns = (oc, fs', ev) \<Longrightarrow> load fs n = Inr c \<Longrightarrow> fix_content c = c \<Longrightarrow>
   fs' n = fs n \<and> n \<notin> set (fixed_names ev) \<and> n \<notin> set (opened_for_writing ev)"
proof (induction ns arbitrary: fs ev)
  case Nil
  then show ?case by simp
next
  case (Cons m ns)
  obtain oc0 fs0 ev0 where p: "process_file fs m = (oc0, fs0, ev0)"
    by (cases "process_file fs m") auto
  have step: "fs0 n = fs n \<and> n \<notin> set (fixed_names ev0) \<and> n \<notin> set (opened_for_writing ev0)"
  proof (cases "m = n")
    case True
    with p process_file_unchanged [OF Cons.prems(2,3)] show ?thesis by auto
  next
    case False
    with process_file_frame [OF p] show ?thesis by auto
  qed
  show ?case
  proof (cases oc0)
    case (Raised e)
    with p Cons.prems(1) step show ?thesis by auto
  next
    case Completed
    with p Cons.prems(1) obtain ev1 where
      r: "run_files fs0 ns = (oc, fs', ev1)" and e: "ev = ev0 @ ev1"
      by (auto split: prod.splits)
    from step Cons.prems(2) have "load fs0 n = Inr c" by (simp add: load_def)
    from Cons.IH [OF r this Cons.prems(3)] step show ?thesis
      unfolding e by (simp add: fixed_names_append opened_for_writing_append)
  qed
qed

text \<open>
  C3. A text in which none of the four patterns occurs is returned unchanged by the
  transform. A file with such a text is read and nothing more: it is not opened for
  writing, it keeps its entry, and no run reports its name as fixed.
\<close>

theorem absent_patterns_unchanged:
  assumes "\<not> sublist pat_getutcdate c" and "\<not> sublist pat_datetime c"
    and "\<not> sublist pat_nvarchar_upper c" and "\<not> sublist pat_nvarchar_lower c"
  shows "fix_content c = c
    \<and> (load fs n = Inr c \<longrightarrow>
         process_file fs n = (Completed, fs, [OpenRead n])
         \<and> (\<forall>ns oc fs' ev. run_files fs ns = (oc, fs', ev) \<longrightarrow>
              fs' n = fs n \<and> n \<notin> set (fixed_names ev) \<and> n \<notin> set (opened_for_writing ev)))"
proof -
  have f: "fix_content c = c" using assms by (rule fix_content_absent)
  show ?thesis
    using f process_file_unchanged [of fs n c] run_files_untouched [of fs _ _ _ _ n c] by blast
qed

lemma text_b_clean:
  "\<not> sublist pat_getutcdate text_b" "\<not> sublist pat_datetime text_b"
  "\<not> sublist pat_nvarchar_upper text_b" "\<not> sublist pat_nvarchar_lower text_b"
  by (simp_all add: pattern_defs text_b_def sublist_code)

lemma load_example_b: "load example_files ''B.cs'' = Inr text_b"
  by (simp add: load_def example_files_def)

theorem absent_patterns_unchanged_witness:
  "\<not> sublist pat_getutcdate text_b \<and> \<not> sublist pat_datetime text_b
   \<and> \<not> sublist pat_nvarchar_upper text_b \<and> \<not> sublist pat_nvarchar_lower text_b
   \<and> load example_files ''B.cs'' = Inr text_b
   \<and> fix_content text_b = text_b
   \<and> process_file example_files ''B.cs'' = (Completed, example_files, [OpenRead ''B.cs''])"
  using absent_patterns_unchanged [OF text_b_clean, of example_files "''B.cs''"]
    text_b_clean load_example_b by blast

section \<open>Case sensitivity\<close>

text \<open>
  A text that cannot overlap an occurrence of \<open>old\<close> is copied by the scan, and the scan
  before it and behind it goes as if it stood alone. So each rule works on the two sides
  of such a text separately.
\<close>

lemma clash_free_suffix:
  "clash_free a b \<Longrightarrow> suffix x b \<Longrightarrow> x \<noteq> [] \<Longrightarrow> \<not> prefix a x \<and> \<not> prefix x a"
proof (induction b)
  case Nil
  then show ?case by simp
next
  case (Cons c b)
  from Cons.prems(2) have "x = c # b \<or> suffix x b" by (auto simp: suffix_Cons)
  then show ?case
  proof
    assume "x = c # b"
    with Cons.prems(1) show ?thesis by simp
  next
    assume "suffix x b"
    with Cons.IH Cons.prems(1,3) show ?thesis by simp
  qed
qed

lemma replace_from_copies:
  "clash_free old x \<Longrightarrow> replace_from old new (x @ v) = x @ replace_from old new v"
proof (induction x)
  case Nil
  then show ?case by simp
next
  case (Cons c x)
  then have "\<not> prefix old (c # x)" "\<not> prefix (c # x) old" "clash_free old x" by auto
  then have "\<not> prefix old ((c # x) @ v)" by (auto dest: not_prefix_append)
  with Cons.IH \<open>clash_free old x\<close> show ?case by simp
qed

lemma prefix_reaching_in:
  assumes cf: "clash_free w (tl old)" and ne: "u \<noteq> []" and p: "prefix old (u @ w @ v)"
  shows "prefix old u"
proof (rule ccontr)
  assume np: "\<not> prefix old u"
  with p obtain us where o: "old = u @ us" and pu: "prefix us (w @ v)"
    by (auto simp: prefix_append)
  from np o have une: "us \<noteq> []" by auto
  from ne o obtain c u' where u: "u = c # u'" by (cases u) auto
  with o have "tl old = u' @ us" by simp
  then have "suffix us (tl old)" by (simp add: suffix_def)
  from clash_free_suffix [OF cf this une] have "\<not> prefix w us" "\<not> prefix us w" by auto
  with pu show False by (auto simp: prefix_append)
qed

lemma replace_from_before:
  "clash_free w (tl old) \<Longrightarrow>
   replace_from old new (u @ w @ v) = replace_from old new u @ replace_from old new (w @ v)"
proof (induction old new u rule: replace_from.induct)
  case (1 old new)
  then show ?case by simp
next
  case (2 old new c s)
  note cf = "2.prems"
  show ?case
  proof (cases "prefix old (c # s)")
    case True
    then have len: "length old - 1 \<le> length s" by (auto dest: prefix_length_le)
    from True have "prefix old ((c # s) @ w @ v)" by (rule prefix_prefix)
    with True len "2.IH"(1) [OF True cf] show ?thesis by simp
  next
    case False
    have "\<not> prefix old ((c # s) @ w @ v)"
      using False prefix_reaching_in [OF cf, of "c # s" v] by blast
    with False "2.IH"(2) [OF False cf] show ?thesis by simp
  qed
qed

lemma str_replace_around:
  assumes "old \<noteq> []" "clash_free w (tl old)" "clash_free old w"
  shows "str_replace (u @ w @ v) old new = str_replace u old new @ w @ str_replace v old new"
  using assms by (simp add: str_replace_def replace_from_before replace_from_copies)

lemma str_replace_at:
  assumes "old \<noteq> []" "clash_free old (tl old)"
  shows "str_replace (u @ old @ v) old new = str_replace u old new @ new @ str_replace v old new"
  using assms by (simp add: str_replace_def replace_from_before replace_from_at_occurrence)

lemma clash_free_map:
  "clash_free (map f a) (map f b) \<Longrightarrow> clash_free a b"
proof (induction b)
  case Nil
  then show ?case by simp
next
  case (Cons c b)
  then have n1: "\<not> prefix (map f a) (map f (c # b))" and n2: "\<not> prefix (map f (c # b)) (map f a)"
    and r: "clash_free (map f a) (map f b)" by auto
  from n1 have "\<not> prefix a (c # b)" using map_mono_prefix by blast
  moreover from n2 have "\<not> prefix (c # b) a" using map_mono_prefix by blast
  ultimately show ?case using Cons.IH [OF r] by simp
qed

lemma lower_patterns:
  "map ascii_lower pat_nvarchar_upper = map ascii_lower pat_nvarchar_lower"
  by (simp add: ascii_lower_def pattern_defs)

lemma lower_clash_facts:
  "clash_free (map ascii_lower pat_nvarchar_lower) (map ascii_lower (tl pat_getutcdate))"
  "clash_free (map ascii_lower pat_nvarchar_lower) (map ascii_lower (tl pat_datetime))"
  "clash_free (map ascii_lower pat_nvarchar_lower) (map ascii_lower (tl pat_nvarchar_lower))"
  "clash_free (map ascii_lower pat_getutcdate) (map ascii_lower pat_nvarchar_lower)"
  "clash_free (map ascii_lower pat_datetime) (map ascii_lower pat_nvarchar_lower)"
  by (simp_all add: ascii_lower_def pattern_defs)

lemma same_length_not_prefix:
  "length a = length b \<Longrightarrow> a \<noteq> b \<Longrightarrow> \<not> prefix a b"
  by (auto simp: prefix_def)

lemma spelling_clash_before:
  assumes m: "map ascii_lower m = map ascii_lower pat_nvarchar_lower"
  shows "clash_free m (tl pat_getutcdate)" "clash_free m (tl pat_datetime)"
    "clash_free m (tl pat_nvarchar_upper)" "clash_free m (tl pat_nvarchar_lower)"
proof -
  show "clash_free m (tl pat_getutcdate)"
    by (rule clash_free_map [where f = ascii_lower]) (simp only: m lower_clash_facts(1))
  show "clash_free m (tl pat_datetime)"
    by (rule clash_free_map [where f = ascii_lower]) (simp only: m lower_clash_facts(2))
  show "clash_free m (tl pat_nvarchar_lower)"
    by (rule clash_free_map [where f = ascii_lower]) (simp only: m lower_clash_facts(3))
  have t: "map ascii_lower (tl pat_nvarchar_upper) = map ascii_lower (tl pat_nvarchar_lower)"
    using lower_patterns by (simp add: map_tl)
  show "clash_free m (tl pat_nvarchar_upper)"
    by (rule clash_free_map [where f = ascii_lower]) (simp only: m t lower_clash_facts(3))
qed

lemma spelling_clash_inside:
  assumes m: "map ascii_lower m = map ascii_lower pat_nvarchar_lower"
  shows "clash_free pat_getutcdate m" "clash_free pat_datetime m"
  by (rule clash_free_map [where f = ascii_lower], simp only: m lower_clash_facts)+

lemma spelling_clash_inside_other:
  assumes m: "map ascii_lower m = map ascii_lower pat_nvarchar_lower"
    and p: "map ascii_lower p = map ascii_lower pat_nvarchar_lower" and ne: "m \<noteq> p"
  shows "clash_free p m"
proof -
  from m p have len: "length m = length p" by (metis length_map)
  from m have "m \<noteq> []" by (auto simp: pattern_defs)
  then obtain c m' where cm: "m = c # m'" by (cases m) auto
  have "map ascii_lower m' = map ascii_lower (tl pat_nvarchar_lower)"
    using m cm by (simp add: map_tl pattern_defs)
  then have "clash_free (map ascii_lower p) (map ascii_lower m')"
    using lower_clash_facts(3) by (simp only: p)
  then have "clash_free p m'" by (rule clash_free_map)
  moreover have "\<not> prefix p m" "\<not> prefix m p"
    using len ne same_length_not_prefix [of p m] same_length_not_prefix [of m p] by auto
  ultimately show ?thesis unfolding cm by simp
qed

lemma fix_content_around_variant:
  assumes "mixed_case_variant m"
  shows "fix_content (u @ m @ v) = fix_content u @ m @ fix_content v"
proof -
  from assms have m: "map ascii_lower m = map ascii_lower pat_nvarchar_lower"
    and n3: "m \<noteq> pat_nvarchar_upper" and n4: "m \<noteq> pat_nvarchar_lower"
    by (auto simp: mixed_case_variant_def)
  note b = spelling_clash_before [OF m]
  note i = spelling_clash_inside [OF m]
  have i3: "clash_free pat_nvarchar_upper m"
    using spelling_clash_inside_other [OF m lower_patterns n3] .
  have i4: "clash_free pat_nvarchar_lower m"
    using spelling_clash_inside_other [OF m refl n4] .
  show ?thesis
    unfolding fix_content_unfold
    by (simp only: str_replace_around [OF patterns_nonempty(1) b(1) i(1)]
        str_replace_around [OF patterns_nonempty(2) b(2) i(2)]
        str_replace_around [OF patterns_nonempty(3) b(3) i3]
        str_replace_around [OF patterns_nonempty(4) b(4) i4])
qed

lemma fix_content_around_upper:
  "fix_content (u @ pat_nvarchar_upper @ v) = fix_content u @ new_text @ fix_content v"
proof -
  note b = spelling_clash_before [OF lower_patterns]
  note i = spelling_clash_inside [OF lower_patterns]
  from apart_nvarchar_lower(3) have a: "clash_free new_text (tl pat_nvarchar_lower)"
    "clash_free pat_nvarchar_lower new_text" by (auto simp: apart_def)
  show ?thesis
    unfolding fix_content_unfold
    by (simp only: str_replace_around [OF patterns_nonempty(1) b(1) i(1)]
        str_replace_around [OF patterns_nonempty(2) b(2) i(2)]
        str_replace_at [OF patterns_nonempty(3) b(3)]
        str_replace_around [OF patterns_nonempty(4) a])
qed

lemma fix_content_around_lower:
  "fix_content (u @ pat_nvarchar_lower @ v) = fix_content u @ new_text @ fix_content v"
proof -
  note b = spelling_clash_before [OF refl]
  note i = spelling_clash_inside [OF refl]
  have ne: "pat_nvarchar_lower \<noteq> pat_nvarchar_upper" by (simp add: pattern_defs)
  have i3: "clash_free pat_nvarchar_upper pat_nvarchar_lower"
    using spelling_clash_inside_other [OF refl lower_patterns ne] .
  show ?thesis
    unfolding fix_content_unfold
    by (simp only: str_replace_around [OF patterns_nonempty(1) b(1) i(1)]
        str_replace_around [OF patterns_nonempty(2) b(2) i(2)]
        str_replace_around [OF patterns_nonempty(3) b(3) i3]
        str_replace_at [OF patterns_nonempty(4) b(4)])
qed

lemma fix_content_pattern_free: "pattern_free c \<Longrightarrow> fix_content c = c"
  by (simp add: pattern_free_def fix_content_absent)

text \<open>
  C5. Matching is exact and case-sensitive. Wherever the upper-case or the lower-case
  spelling of the \<^verbatim>\<open>nvarchar(max)\<close> column type stands in a content, the transform puts
  \<^verbatim>\<open>HasColumnType("text")\<close> there and transforms the text before and behind it on its own;
  between texts without a pattern the content becomes exactly those texts around
  \<^verbatim>\<open>HasColumnType("text")\<close>. Every mixed-case variant that neither rule names, such as
  \<^verbatim>\<open>HasColumnType("NVarchar(Max)")\<close>, stays where it is, and a content in which it is the
  only candidate, between texts without a pattern, is left unchanged. No transformed
  text contains either of the two named spellings.
\<close>

theorem nvarchar_case_sensitive:
  \<open>(\<forall>u v. fix_content (u @ pat_nvarchar_upper @ v) = fix_content u @ new_text @ fix_content v)
   \<and> (\<forall>u v. fix_content (u @ pat_nvarchar_lower @ v) = fix_content u @ new_text @ fix_content v)
   \<and> (\<forall>u v. pattern_free u \<and> pattern_free v \<longrightarrow>
         fix_content (u @ pat_nvarchar_upper @ v) = u @ new_text @ v
         \<and> fix_content (u @ pat_nvarchar_lower @ v) = u @ new_text @ v)
   \<and> (\<forall>m u v. mixed_case_variant m \<longrightarrow>
         fix_content (u @ m @ v) = fix_content u @ m @ fix_content v)
   \<and> (\<forall>m u v. mixed_case_variant m \<and> pattern_free u \<and> pattern_free v \<longrightarrow>
         fix_content (u @ m @ v) = u @ m @ v)
   \<and> fix_content pat_nvarchar_upper = new_text
   \<and> fix_content pat_nvarchar_lower = new_text
   \<and> fix_content ''b.Property(e => e.Bio).HasColumnType("NVARCHAR(MAX)");'' =
       ''b.Property(e => e.Bio).HasColumnType("text");''
   \<and> fix_content ''b.Property(e => e.Bio).HasColumnType("nvarchar(max)");'' =
       ''b.Property(e => e.Bio).HasColumnType("text");''
   \<and> fix_content ''HasColumnType("NVarchar(Max)")'' = ''HasColumnType("NVarchar(Max)")''
   \<and> fix_content text_mixed_case = text_mixed_case
   \<and> \<not> sublist pat_nvarchar_upper (fix_content txt)
   \<and> \<not> sublist pat_nvarchar_lower (fix_content txt)\<close>
proof (intro conjI allI impI)
  show "fix_content (u @ pat_nvarchar_upper @ v) = fix_content u @ new_text @ fix_content v"
    for u v by (rule fix_content_around_upper)
  show "fix_content (u @ pat_nvarchar_lower @ v) = fix_content u @ new_text @ fix_content v"
    for u v by (rule fix_content_around_lower)
  show "fix_content (u @ pat_nvarchar_upper @ v) = u @ new_text @ v"
    if "pattern_free u \<and> pattern_free v" for u v
    using that by (simp add: fix_content_around_upper fix_content_pattern_free)
  show "fix_content (u @ pat_nvarchar_lower @ v) = u @ new_text @ v"
    if "pattern_free u \<and> pattern_free v" for u v
    using that by (simp add: fix_content_around_lower fix_content_pattern_free)
  show "fix_content (u @ m @ v) = fix_content u @ m @ fix_content v"
    if "mixed_case_variant m" for m u v
    using that by (rule fix_content_around_variant)
  show "fix_content (u @ m @ v) = u @ m @ v"
    if "mixed_case_variant m \<and> pattern_free u \<and> pattern_free v" for m u v
    using that by (simp add: fix_content_around_variant fix_content_pattern_free)
  show "fix_content pat_nvarchar_upper = new_text"
    by (simp add: fix_content_def str_replace_def pattern_defs)
  show "fix_content pat_nvarchar_lower = new_text"
    by (simp add: fix_content_def str_replace_def pattern_defs)
  show \<open>fix_content ''b.Property(e => e.Bio).HasColumnType("NVARCHAR(MAX)");'' =
       ''b.Property(e => e.Bio).HasColumnType("text");''\<close>
    by (simp add: fix_content_def str_replace_def pattern_defs)
  show \<open>fix_content ''b.Property(e => e.Bio).HasColumnType("nvarchar(max)");'' =
       ''b.Property(e => e.Bio).HasColumnType("text");''\<close>
    by (simp add: fix_content_def str_replace_def pattern_defs)
  show \<open>fix_content ''HasColumnType("NVarchar(Max)")'' = ''HasColumnType("NVarchar(Max)")''\<close>
    by (simp add: fix_content_def str_replace_def pattern_defs)
  show "fix_content text_mixed_case = text_mixed_case"
    by (simp add: fix_content_def str_replace_def pattern_defs text_mixed_case_def)
  show "\<not> sublist pat_nvarchar_upper (fix_content txt)" by (rule fix_content_free(3))
  show "\<not> sublist pat_nvarchar_lower (fix_content txt)" by (rule fix_content_free(4))
qed

theorem nvarchar_case_sensitive_witness:
  \<open>pattern_free ''b.Property(e => e.Bio).'' \<and> pattern_free '';  // #''
   \<and> mixed_case_variant ''HasColumnType("NVarchar(Max)")''
   \<and> mixed_case_variant ''HasColumnType("Nvarchar(Max)")''
   \<and> mixed_case_variant ''hascolumntype("NVARCHAR(max)")''
   \<and> fix_content (''b.Property(e => e.Bio).'' @ pat_nvarchar_upper @ '';  // #'') =
       ''b.Property(e => e.Bio).'' @ new_text @ '';  // #''
   \<and> fix_content (''b.Property(e => e.Bio).'' @ pat_nvarchar_lower @ '';  // #'') =
       ''b.Property(e => e.Bio).'' @ new_text @ '';  // #''
   \<and> fix_content (''b.Property(e => e.Bio).'' @ ''HasColumnType("NVarchar(Max)")'' @ '';  // #'') =
       ''b.Property(e => e.Bio).'' @ ''HasColumnType("NVarchar(Max)")'' @ '';  // #''
   \<and> fix_content (''b.Property(e => e.Bio).'' @ ''HasColumnType("Nvarchar(Max)")'' @ '';  // #'') =
       ''b.Property(e => e.Bio).'' @ ''HasColumnType("Nvarchar(Max)")'' @ '';  // #''
   \<and> fix_content (''b.Property(e => e.Bio).'' @ ''hascolumntype("NVARCHAR(max)")'' @ '';  // #'') =
       ''b.Property(e => e.Bio).'' @ ''hascolumntype("NVARCHAR(max)")'' @ '';  // #''\<close>
proof -
  have u: \<open>pattern_free ''b.Property(e => e.Bio).''\<close>
    by (simp add: pattern_free_def pattern_defs sublist_code)
  have v: \<open>pattern_free '';  // #''\<close>
    by (simp add: pattern_free_def pattern_defs sublist_code)
  have m1: \<open>mixed_case_variant ''HasColumnType("NVarchar(Max)")''\<close>
    by (simp add: mixed_case_variant_def ascii_lower_def pattern_defs)
  have m2: \<open>mixed_case_variant ''HasColumnType("Nvarchar(Max)")''\<close>
    by (simp add: mixed_case_variant_def ascii_lower_def pattern_defs)
  have m3: \<open>mixed_case_variant ''hascolumntype("NVARCHAR(max)")''\<close>
    by (simp add: mixed_case_variant_def ascii_lower_def pattern_defs)
  note t = nvarchar_case_sensitive [of text_mixed_case]
  from t u v have a:
    \<open>fix_content (''b.Property(e => e.Bio).'' @ pat_nvarchar_upper @ '';  // #'') =
       ''b.Property(e => e.Bio).'' @ new_text @ '';  // #''\<close>
    \<open>fix_content (''b.Property(e => e.Bio).'' @ pat_nvarchar_lower @ '';  // #'') =
       ''b.Property(e => e.Bio).'' @ new_text @ '';  // #''\<close>
    by blast+
  from t u v m1 have b1:
    \<open>fix_content (''b.Property(e => e.Bio).'' @ ''HasColumnType("NVarchar(Max)")'' @ '';  // #'') =
       ''b.Property(e => e.Bio).'' @ ''HasColumnType("NVarchar(Max)")'' @ '';  // #''\<close>
    by blast
  from t u v m2 have b2:
    \<open>fix_content (''b.Property(e => e.Bio).'' @ ''HasColumnType("Nvarchar(Max)")'' @ '';  // #'') =
       ''b.Property(e => e.Bio).'' @ ''HasColumnType("Nvarchar(Max)")'' @ '';  // #''\<close>
    by blast
  from t u v m3 have b3:
    \<open>fix_content (''b.Property(e => e.Bio).'' @ ''hascolumntype("NVARCHAR(max)")'' @ '';  // #'') =
       ''b.Property(e => e.Bio).'' @ ''hascolumntype("NVARCHAR(max)")'' @ '';  // #''\<close>
    by blast
  from u v m1 m2 m3 a b1 b2 b3 show ?thesis by blast
qed

section \<open>One occurrence of the first pattern\<close>

lemma single_occurrence_unique:
  assumes "p \<noteq> []"
  shows "occurrences p s = 1 \<Longrightarrow> s = u @ p @ v \<Longrightarrow> s = u' @ p @ v' \<Longrightarrow> u = u'"
proof (induction s arbitrary: u u')
  case Nil
  with assms show ?case by simp
next
  case (Cons c s)
  show ?case
  proof (cases "prefix p (c # s)")
    case True
    with Cons.prems(1) have "occurrences p s = 0" by simp
    then have ns: "\<not> sublist p s" using occurrences_zero [OF assms] by simp
    have "w = []" if "c # s = w @ p @ z" for w z
    proof (cases w)
      case Nil then show ?thesis .
    next
      case (Cons a w')
      with that have "s = w' @ p @ z" by simp
      then have "sublist p s" by (auto simp: sublist_def)
      with ns show ?thesis by simp
    qed
    with Cons.prems(2,3) show ?thesis by metis
  next
    case False
    with Cons.prems(1) have one: "occurrences p s = 1" by simp
    have ne: "\<exists>w'. w = c # w' \<and> s = w' @ p @ z" if "c # s = w @ p @ z" for w z
    proof (cases w)
      case Nil
      with that have "prefix p (c # s)" by (simp add: prefix_def)
      with False show ?thesis by simp
    next
      case (Cons a w')
      with that show ?thesis by simp
    qed
    from ne [OF Cons.prems(2)] obtain u1 where u1: "u = c # u1" "s = u1 @ p @ v" by blast
    from ne [OF Cons.prems(3)] obtain u2 where u2: "u' = c # u2" "s = u2 @ p @ v'" by blast
    from Cons.IH [OF one u1(2) u2(2)] u1(1) u2(1) show ?thesis by simp
  qed
qed

lemma single_occurrence_replaced:
  assumes ne: "p \<noteq> []" and one: "occurrences p s = 1" and s: "s = u @ p @ v"
  shows "replace_from p new s = u @ new @ v"
proof -
  from single_occurrence_split [OF ne one] obtain u0 v0 where
    h: "s = u0 @ p @ v0" "\<not> sublist p (u0 @ butlast p)" "\<not> sublist p v0" by blast
  from single_occurrence_unique [OF ne one s h(1)] have "u = u0" .
  with s h(1) have "v = v0" by simp
  from replace_from_leftmost [OF ne h(2), of new v0] replace_from_absent [OF h(3), of new]
  show ?thesis using h(1) \<open>u = u0\<close> \<open>v = v0\<close> by simp
qed

text \<open>
  C6 as stated fails: the text of the specification's own example has exactly one
  occurrence of \<^verbatim>\<open>GETUTCDATE()\<close>, and the transform also rewrites its
  \<^verbatim>\<open>HasColumnType("datetime")\<close>, so the rest of the text does not stay unchanged.
\<close>

theorem single_getutcdate_counterexample:
  \<open>occurrences pat_getutcdate text_a = 1
   \<and> text_a = ''col.HasColumnType("datetime").HasDefaultValueSql("'' @ pat_getutcdate @ ''")''
   \<and> fix_content text_a \<noteq>
       ''col.HasColumnType("datetime").HasDefaultValueSql("'' @ new_now @ ''")''\<close>
  by (simp add: fix_text_a text_a_fixed_def) (simp add: text_a_def pattern_defs)

text \<open>
  C6, amended. A text with exactly one occurrence of \<^verbatim>\<open>GETUTCDATE()\<close> splits around that
  occurrence as \<open>u @ pat_getutcdate @ v\<close>. The first rule turns it into
  \<open>u @ new_now @ v\<close>; the transform is the three later rules applied to that text; and
  when none of the three other patterns occurs in the original text, the transform is
  exactly \<open>u @ new_now @ v\<close>: the occurrence replaced and all other text unchanged.
\<close>

theorem single_getutcdate_replaced:
  assumes "occurrences pat_getutcdate s = 1"
  shows "(\<exists>u v. s = u @ pat_getutcdate @ v)
    \<and> (\<forall>u v. s = u @ pat_getutcdate @ v \<longrightarrow>
          str_replace s pat_getutcdate new_now = u @ new_now @ v
          \<and> fix_content s =
              str_replace (str_replace (str_replace (u @ new_now @ v)
                pat_datetime new_timestamptz) pat_nvarchar_upper new_text)
                pat_nvarchar_lower new_text
          \<and> (\<not> sublist pat_datetime s \<and> \<not> sublist pat_nvarchar_upper s
               \<and> \<not> sublist pat_nvarchar_lower s \<longrightarrow> fix_content s = u @ new_now @ v))"
proof (intro conjI allI impI)
  show "\<exists>u v. s = u @ pat_getutcdate @ v"
    using single_occurrence_split [OF patterns_nonempty(1) assms] by blast
next
  fix u v assume s: "s = u @ pat_getutcdate @ v"
  show r: "str_replace s pat_getutcdate new_now = u @ new_now @ v"
    using single_occurrence_replaced [OF patterns_nonempty(1) assms s]
    by (simp add: str_replace_def patterns_nonempty)
  show f: "fix_content s =
      str_replace (str_replace (str_replace (u @ new_now @ v)
        pat_datetime new_timestamptz) pat_nvarchar_upper new_text)
        pat_nvarchar_lower new_text"
    unfolding fix_content_unfold r ..
  assume clean: "\<not> sublist pat_datetime s \<and> \<not> sublist pat_nvarchar_upper s
               \<and> \<not> sublist pat_nvarchar_lower s"
  let ?t = "u @ new_now @ v"
  from clean have
    "\<not> sublist pat_datetime ?t" "\<not> sublist pat_nvarchar_upper ?t" "\<not> sublist pat_nvarchar_lower ?t"
    using str_replace_keeps_absent [OF patterns_nonempty(1), of _ new_now s]
      apart_datetime(1) apart_nvarchar_upper(1) apart_nvarchar_lower(1)
    unfolding r by blast+
  then show "fix_content s = u @ new_now @ v"
    unfolding f by (simp add: str_replace_absent patterns_nonempty)
qed

theorem single_getutcdate_replaced_witness:
  \<open>occurrences pat_getutcdate text_default = 1
   \<and> text_default = ''b.Property(e => e.At).HasDefaultValueSql("'' @ pat_getutcdate @ ''");''
   \<and> \<not> sublist pat_datetime text_default \<and> \<not> sublist pat_nvarchar_upper text_default
   \<and> \<not> sublist pat_nvarchar_lower text_default
   \<and> fix_content text_default = ''b.Property(e => e.At).HasDefaultValueSql("'' @ new_now @ ''");''\<close>
proof -
  have one: "occurrences pat_getutcdate text_default = 1"
    by (simp add: text_default_def pattern_defs)
  have s: \<open>text_default = ''b.Property(e => e.At).HasDefaultValueSql("'' @ pat_getutcdate @ ''");''\<close>
    by (simp add: text_default_def pattern_defs)
  have clean: "\<not> sublist pat_datetime text_default \<and> \<not> sublist pat_nvarchar_upper text_default
     \<and> \<not> sublist pat_nvarchar_lower text_default"
    by (simp add: text_default_def pattern_defs sublist_code)
  from single_getutcdate_replaced [OF one] s clean
  have \<open>fix_content text_default = ''b.Property(e => e.At).HasDefaultValueSql("'' @ new_now @ ''");''\<close>
    by blast
  with one s clean show ?thesis by blast
qed

section \<open>The candidates\<close>




text \<open>
  C10. When the listing succeeds and no name in it ends with \<^verbatim>\<open>.cs\<close>, the run completes
  with the files as they were, and its only events are the listing and the print of the
  final message: no file is opened for reading or for writing and no \<^verbatim>\<open>Fixed:\<close> line
  is printed.
\<close>

theorem no_candidates_only_message:
  assumes "listdir d = Inr names" and "\<forall>n\<in>set names. \<not> endswith n ''.cs''"
  shows "run d = (Completed, entry d, [Listdir, Print done_message])"
proof -
  from assms(2) have "cs_files names = []" by (simp add: cs_files_def)
  with assms(1) show ?thesis by (simp add: run_def)
qed

theorem no_candidates_only_message_witness:
  "listdir dir_without_cs = Inr [''README.md'', ''A.cs.bak'', ''cs'']
   \<and> \<not> endswith ''README.md'' ''.cs'' \<and> \<not> endswith ''A.cs.bak'' ''.cs''
   \<and> \<not> endswith ''cs'' ''.cs''
   \<and> run dir_without_cs = (Completed, entry dir_without_cs, [Listdir, Print done_message])"
proof -
  have l: "listdir dir_without_cs = Inr [''README.md'', ''A.cs.bak'', ''cs'']"
    by (simp add: dir_without_cs_def)
  have e: "\<not> endswith ''README.md'' ''.cs''" "\<not> endswith ''A.cs.bak'' ''.cs''"
    "\<not> endswith ''cs'' ''.cs''"
    by (simp_all add: endswith_def)
  then have "\<forall>n\<in>set [''README.md'', ''A.cs.bak'', ''cs'']. \<not> endswith n ''.cs''" by simp
  from no_candidates_only_message [OF l this] l e show ?thesis by blast
qed

section \<open>Writing and reporting\<close>

lemma store_result:
  "store fs n c' = Inr fs' \<Longrightarrow>
   (\<exists>r w. fs' n = Some (Regular r w (Some c'))) \<and> (\<forall>m. m \<noteq> n \<longrightarrow> fs' m = fs m)"
  by (auto simp: store_def split: option.splits node.splits if_splits)

lemma run_completed_prints:
  assumes "listdir d = Inr names" and "run d = (Completed, fs1, ev)"
  shows "printed ev = map (\<lambda>n. ''Fixed: '' @ n) (opened_for_writing ev) @ [done_message]
     \<and> distinct (opened_for_writing ev)
     \<and> set (opened_for_writing ev) = {n \<in> set (cs_files names). needs_fix (entry d) n}"
proof -
  from assms obtain ev' where
    r: "run_files (entry d) (cs_files names) = (Completed, fs1, ev')"
    and e: "ev = Listdir # ev' @ [Print done_message]"
    by (auto simp: run_def split: prod.splits outcome.splits)
  from run_files_reports [OF r] show ?thesis
    unfolding e by (simp add: printed_append opened_for_writing_append)
qed

text \<open>
  C7. \<open>maybe_write\<close> writes exactly when the transformed text differs from the original.
  With equal texts it does nothing: no event, the files as they were. With different
  texts it opens the file for writing; when that succeeds the file holds the transformed
  text, every other entry is as before, and exactly one line \<^verbatim>\<open>Fixed: <filename>\<close> is
  printed; when it raises, the exception ends the step. In a completed run the printed
  lines are one \<^verbatim>\<open>Fixed:\<close> line for each file written, each written once, namely the
  candidates whose text the transform changes, followed by the final message, once.
\<close>

theorem maybe_write_iff_changed:
  "maybe_write fs n original original = (Completed, fs, [])
   \<and> (content \<noteq> original \<longrightarrow>
        (\<forall>fs'. store fs n content = Inr fs' \<longrightarrow>
           maybe_write fs n original content =
             (Completed, fs', [OpenWrite n, Print (''Fixed: '' @ n)])
           \<and> (\<exists>r w. fs' n = Some (Regular r w (Some content)))
           \<and> (\<forall>m. m \<noteq> n \<longrightarrow> fs' m = fs m))
        \<and> (\<forall>e. store fs n content = Inl e \<longrightarrow>
             maybe_write fs n original content = (Raised e, fs, [OpenWrite n])))
   \<and> (\<forall>names fs1 ev. listdir d = Inr names \<and> run d = (Completed, fs1, ev) \<longrightarrow>
        printed ev = map (\<lambda>n. ''Fixed: '' @ n) (opened_for_writing ev) @ [done_message]
        \<and> distinct (opened_for_writing ev)
        \<and> set (opened_for_writing ev) = {n \<in> set (cs_files names). needs_fix (entry d) n})"
proof (intro conjI allI impI)
  show "maybe_write fs n original original = (Completed, fs, [])"
    by (simp add: maybe_write_def)
next
  fix fs' assume "content \<noteq> original" "store fs n content = Inr fs'"
  then show "maybe_write fs n original content =
      (Completed, fs', [OpenWrite n, Print (''Fixed: '' @ n)])"
    by (simp add: maybe_write_def)
  from store_result [OF \<open>store fs n content = Inr fs'\<close>]
  show "\<exists>r w. fs' n = Some (Regular r w (Some content))" by blast
  fix m assume "m \<noteq> n"
  with store_result [OF \<open>store fs n content = Inr fs'\<close>] show "fs' m = fs m" by blast
next
  fix e assume "content \<noteq> original" "store fs n content = Inl e"
  then show "maybe_write fs n original content = (Raised e, fs, [OpenWrite n])"
    by (simp add: maybe_write_def)
next
  fix names fs1 ev
  assume h: "listdir d = Inr names \<and> run d = (Completed, fs1, ev)"
  then have a: "listdir d = Inr names" and b: "run d = (Completed, fs1, ev)" by auto
  from run_completed_prints [OF a b]
  show "printed ev = map (\<lambda>n. ''Fixed: '' @ n) (opened_for_writing ev) @ [done_message]"
    and "distinct (opened_for_writing ev)"
    and "set (opened_for_writing ev) = {n \<in> set (cs_files names). needs_fix (entry d) n}"
    by auto
qed

lemma store_example_a:
  "store example_files ''A.cs'' text_a_fixed =
     Inr (example_files(''A.cs'' \<mapsto> Regular True True (Some text_a_fixed)))"
  by (simp add: store_def example_files_def)

lemma store_readonly: "store readonly_files ''A.cs'' text_a_fixed = Inl PermissionError"
  by (simp add: store_def readonly_files_def)

theorem maybe_write_iff_changed_witness:
  "text_a_fixed \<noteq> text_a
   \<and> store example_files ''A.cs'' text_a_fixed =
       Inr (example_files(''A.cs'' \<mapsto> Regular True True (Some text_a_fixed)))
   \<and> maybe_write example_files ''A.cs'' text_a text_a_fixed =
       (Completed, example_files(''A.cs'' \<mapsto> Regular True True (Some text_a_fixed)),
        [OpenWrite ''A.cs'', Print ''Fixed: A.cs''])
   \<and> store readonly_files ''A.cs'' text_a_fixed = Inl PermissionError
   \<and> maybe_write readonly_files ''A.cs'' text_a text_a_fixed =
       (Raised PermissionError, readonly_files, [OpenWrite ''A.cs''])
   \<and> listdir example_dir = Inr [''A.cs'', ''notes.txt'', ''B.cs'']
   \<and> run example_dir =
       (Completed, example_files(''A.cs'' \<mapsto> Regular True True (Some text_a_fixed)),
        [Listdir, OpenRead ''A.cs'', OpenWrite ''A.cs'', Print ''Fixed: A.cs'', OpenRead ''B.cs'',
         Print done_message])
   \<and> printed [Listdir, OpenRead ''A.cs'', OpenWrite ''A.cs'', Print ''Fixed: A.cs'',
        OpenRead ''B.cs'', Print done_message] = [''Fixed: A.cs'', done_message]"
proof -
  have l: "listdir example_dir = Inr [''A.cs'', ''notes.txt'', ''B.cs'']"
    by (simp add: example_dir_def)
  note t1 = maybe_write_iff_changed [of example_files "''A.cs''" text_a text_a_fixed example_dir]
  note t2 = maybe_write_iff_changed [of readonly_files "''A.cs''" text_a text_a_fixed example_dir]
  from t1 text_a_changes store_example_a
  have w1: "maybe_write example_files ''A.cs'' text_a text_a_fixed =
       (Completed, example_files(''A.cs'' \<mapsto> Regular True True (Some text_a_fixed)),
        [OpenWrite ''A.cs'', Print (''Fixed: '' @ ''A.cs'')])" by blast
  from t2 text_a_changes store_readonly
  have w2: "maybe_write readonly_files ''A.cs'' text_a text_a_fixed =
       (Raised PermissionError, readonly_files, [OpenWrite ''A.cs''])" by blast
  from t1 l run_example
  have w3: "printed [Listdir, OpenRead ''A.cs'', OpenWrite ''A.cs'', Print ''Fixed: A.cs'',
        OpenRead ''B.cs'', Print done_message] =
      map (\<lambda>n. ''Fixed: '' @ n) (opened_for_writing [Listdir, OpenRead ''A.cs'', OpenWrite ''A.cs'',
        Print ''Fixed: A.cs'', OpenRead ''B.cs'', Print done_message]) @ [done_message]" by blast
  from w1 w2 w3 text_a_changes store_example_a store_readonly l run_example
  show ?thesis by simp
qed

section \<open>Exceptions\<close>

lemma run_raised_no_done:
  assumes "run d = (Raised e, fs', ev)"
  shows "done_message \<notin> set (printed ev)"
proof (cases "listdir d")
  case (Inl e')
  with assms show ?thesis by (auto simp: run_def)
next
  case (Inr names)
  with assms obtain ev' where
    r: "run_files (entry d) (cs_files names) = (Raised e, fs', ev')" and e: "ev = Listdir # ev'"
    by (auto simp: run_def split: prod.splits outcome.splits)
  from run_files_raised_prints [OF r] show ?thesis
    unfolding e using done_message_not_report by auto
qed

lemma run_fails_at:
  assumes l: "listdir d = Inr names" and c: "cs_files names = pre @ bad # post"
    and r: "run_files (entry d) pre = (Completed, fs1, ev1)"
    and p: "process_file fs1 bad = (Raised e, fs2, ev2)"
  shows "run d = (Raised e, fs1, Listdir # ev1 @ ev2)
    \<and> (\<forall>n\<in>set pre. fs1 n = fix_node (entry d n))
    \<and> (\<forall>n. n \<notin> set pre \<longrightarrow> fs1 n = entry d n)"
proof -
  from process_file_raised [OF p] have "fs2 = fs1" by simp
  with run_files_append [OF r, of "bad # post"] p
  have "run_files (entry d) (cs_files names) = (Raised e, fs1, ev1 @ ev2)"
    unfolding c by simp
  with l have "run d = (Raised e, fs1, Listdir # ev1 @ ev2)" by (simp add: run_def)
  moreover from run_files_completed [OF r] have "fs1 = patched (entry d) (set pre)" by simp
  ultimately show ?thesis by (simp add: patched_def)
qed

text \<open>
  C8. No exception is caught and nothing is rolled back. An exception of the listing,
  of opening or decoding a file, or of opening it for writing is the outcome of the run,
  unchanged. When the candidates before \<open>bad\<close> were processed and \<open>bad\<close> raises, the run
  ends there with the files as that prefix left them: every candidate before \<open>bad\<close> holds
  its transformed text, every other entry is as it was. A run that raises never prints
  the final message.
\<close>

theorem errors_end_the_run:
  "(listdir d = Inl e \<longrightarrow> run d = (Raised e, entry d, [Listdir]))
   \<and> (load fs n = Inl e \<longrightarrow> process_file fs n = (Raised e, fs, [OpenRead n]))
   \<and> (load fs n = Inr c \<and> fix_content c \<noteq> c \<and> store fs n (fix_content c) = Inl e \<longrightarrow>
        process_file fs n = (Raised e, fs, [OpenRead n, OpenWrite n]))
   \<and> (listdir d = Inr names \<and> cs_files names = pre @ bad # post
        \<and> run_files (entry d) pre = (Completed, fs1, ev1)
        \<and> process_file fs1 bad = (Raised e, fs2, ev2) \<longrightarrow>
        run d = (Raised e, fs1, Listdir # ev1 @ ev2)
        \<and> (\<forall>n\<in>set pre. fs1 n = fix_node (entry d n))
        \<and> (\<forall>n. n \<notin> set pre \<longrightarrow> fs1 n = entry d n))
   \<and> (\<forall>fs' ev. run d = (Raised e, fs', ev) \<longrightarrow> done_message \<notin> set (printed ev))"
proof (intro conjI impI allI)
  show "run d = (Raised e, entry d, [Listdir])" if "listdir d = Inl e"
    using that by (simp add: run_def)
  show "process_file fs n = (Raised e, fs, [OpenRead n])" if "load fs n = Inl e"
    using that by (rule process_file_load_error)
  show "process_file fs n = (Raised e, fs, [OpenRead n, OpenWrite n])"
    if "load fs n = Inr c \<and> fix_content c \<noteq> c \<and> store fs n (fix_content c) = Inl e"
    using that process_file_store_error by blast
  show "done_message \<notin> set (printed ev)" if "run d = (Raised e, fs', ev)" for fs' ev
    using that by (rule run_raised_no_done)
next
  assume h: "listdir d = Inr names \<and> cs_files names = pre @ bad # post
        \<and> run_files (entry d) pre = (Completed, fs1, ev1)
        \<and> process_file fs1 bad = (Raised e, fs2, ev2)"
  then have "run d = (Raised e, fs1, Listdir # ev1 @ ev2)
    \<and> (\<forall>n\<in>set pre. fs1 n = fix_node (entry d n))
    \<and> (\<forall>n. n \<notin> set pre \<longrightarrow> fs1 n = entry d n)"
    using run_fails_at [of d names pre bad post fs1 ev1 e fs2 ev2] by blast
  then show "run d = (Raised e, fs1, Listdir # ev1 @ ev2)"
    and "\<forall>n\<in>set pre. fs1 n = fix_node (entry d n)"
    and "\<And>n. n \<notin> set pre \<Longrightarrow> fs1 n = entry d n" by blast+
qed

lemma listdir_dir_ab: "listdir dir_ab = Inr [''A.cs'', ''Z.cs'']"
  by (simp add: dir_ab_def)

lemma cs_files_ab: "cs_files [''A.cs'', ''Z.cs''] = [''A.cs''] @ ''Z.cs'' # []"
  by (simp add: cs_files_def endswith_def)

lemma cs_files_ba: "cs_files [''Z.cs'', ''A.cs''] = [''Z.cs'', ''A.cs'']"
  by (simp add: cs_files_def endswith_def)

lemma run_files_ab_pre:
  "run_files (entry dir_ab) [''A.cs''] =
     (Completed, files_ab_fixed, [OpenRead ''A.cs'', OpenWrite ''A.cs'', Print ''Fixed: A.cs''])"
  by (simp add: dir_ab_def files_ab_fixed_def process_file_def load_def maybe_write_def store_def
      fix_text_a text_a_changes)

lemma process_z_after:
  "process_file files_ab_fixed ''Z.cs'' = (Raised PermissionError, files_ab_fixed, [OpenRead ''Z.cs''])"
  by (simp add: dir_ab_def files_ab_fixed_def process_file_def load_def)

lemma process_z_before:
  "process_file (entry dir_ab) ''Z.cs'' = (Raised PermissionError, entry dir_ab, [OpenRead ''Z.cs''])"
  by (simp add: dir_ab_def process_file_def load_def)

lemma load_z: "load (entry dir_ab) ''Z.cs'' = Inl PermissionError"
  by (simp add: dir_ab_def load_def)

lemma load_readonly: "load readonly_files ''A.cs'' = Inr text_a"
  by (simp add: readonly_files_def load_def)

theorem errors_end_the_run_witness:
  "listdir dir_missing = Inl FileNotFoundError
   \<and> run dir_missing = (Raised FileNotFoundError, entry dir_missing, [Listdir])
   \<and> load (entry dir_ab) ''Z.cs'' = Inl PermissionError
   \<and> process_file (entry dir_ab) ''Z.cs'' =
       (Raised PermissionError, entry dir_ab, [OpenRead ''Z.cs''])
   \<and> load readonly_files ''A.cs'' = Inr text_a \<and> fix_content text_a \<noteq> text_a
   \<and> store readonly_files ''A.cs'' (fix_content text_a) = Inl PermissionError
   \<and> process_file readonly_files ''A.cs'' =
       (Raised PermissionError, readonly_files, [OpenRead ''A.cs'', OpenWrite ''A.cs''])
   \<and> listdir dir_ab = Inr [''A.cs'', ''Z.cs'']
   \<and> cs_files [''A.cs'', ''Z.cs''] = [''A.cs''] @ ''Z.cs'' # []
   \<and> run_files (entry dir_ab) [''A.cs''] =
       (Completed, files_ab_fixed, [OpenRead ''A.cs'', OpenWrite ''A.cs'', Print ''Fixed: A.cs''])
   \<and> process_file files_ab_fixed ''Z.cs'' =
       (Raised PermissionError, files_ab_fixed, [OpenRead ''Z.cs''])
   \<and> run dir_ab =
       (Raised PermissionError, files_ab_fixed,
        Listdir # [OpenRead ''A.cs'', OpenWrite ''A.cs'', Print ''Fixed: A.cs''] @ [OpenRead ''Z.cs''])
   \<and> files_ab_fixed ''A.cs'' = fix_node (entry dir_ab ''A.cs'')
   \<and> files_ab_fixed ''Z.cs'' = entry dir_ab ''Z.cs''
   \<and> done_message \<notin> set (printed (Listdir # [OpenRead ''A.cs'', OpenWrite ''A.cs'',
        Print ''Fixed: A.cs''] @ [OpenRead ''Z.cs'']))"
proof -
  have l0: "listdir dir_missing = Inl FileNotFoundError" by (simp add: dir_missing_def)
  have ch: "fix_content text_a \<noteq> text_a" by (simp add: fix_text_a text_a_changes)
  have st: "store readonly_files ''A.cs'' (fix_content text_a) = Inl PermissionError"
    by (simp add: fix_text_a store_readonly)
  note t0 = errors_end_the_run [of dir_missing FileNotFoundError]
  note t1 = errors_end_the_run [of dir_ab PermissionError "entry dir_ab" "''Z.cs''"]
  note t2 = errors_end_the_run [of dir_ab PermissionError readonly_files "''A.cs''" text_a]
  note t3 = errors_end_the_run [of dir_ab PermissionError "entry dir_ab" "''Z.cs''" text_a
      "[''A.cs'', ''Z.cs'']" "[''A.cs'']" "''Z.cs''" "[]" files_ab_fixed
      "[OpenRead ''A.cs'', OpenWrite ''A.cs'', Print ''Fixed: A.cs'']" files_ab_fixed
      "[OpenRead ''Z.cs'']"]
  from t0 l0 have w0: "run dir_missing = (Raised FileNotFoundError, entry dir_missing, [Listdir])"
    by blast
  from t1 load_z have w1: "process_file (entry dir_ab) ''Z.cs'' =
       (Raised PermissionError, entry dir_ab, [OpenRead ''Z.cs''])" by blast
  from t2 load_readonly ch st have w2: "process_file readonly_files ''A.cs'' =
       (Raised PermissionError, readonly_files, [OpenRead ''A.cs'', OpenWrite ''A.cs''])" by blast
  from t3 listdir_dir_ab cs_files_ab run_files_ab_pre process_z_after
  have w3: "run dir_ab =
       (Raised PermissionError, files_ab_fixed,
        Listdir # [OpenRead ''A.cs'', OpenWrite ''A.cs'', Print ''Fixed: A.cs''] @ [OpenRead ''Z.cs''])
     \<and> (\<forall>n\<in>set [''A.cs'']. files_ab_fixed n = fix_node (entry dir_ab n))
     \<and> (\<forall>n. n \<notin> set [''A.cs''] \<longrightarrow> files_ab_fixed n = entry dir_ab n)" by blast
  then have w4: "files_ab_fixed ''A.cs'' = fix_node (entry dir_ab ''A.cs'')"
    and w5: "files_ab_fixed ''Z.cs'' = entry dir_ab ''Z.cs''" by simp_all
  from t3 w3 have w6: "done_message \<notin> set (printed (Listdir # [OpenRead ''A.cs'', OpenWrite ''A.cs'',
        Print ''Fixed: A.cs''] @ [OpenRead ''Z.cs'']))" by blast
  from l0 w0 load_z w1 load_readonly ch st w2 listdir_dir_ab cs_files_ab run_files_ab_pre
    process_z_after w3 w4 w5 w6
  show ?thesis by blast
qed

section \<open>The order of the candidates\<close>

lemma run_order_independent:
  assumes m: "mset ys = mset xs" and l: "listdir d = Inr xs"
    and r: "run d = (Completed, fs1, ev1)"
  shows "\<exists>ev2. run (d\<lparr>listdir := Inr ys\<rparr>) = (Completed, fs1, ev2)
           \<and> mset (fixed_names ev2) = mset (fixed_names ev1)"
proof -
  from l r obtain ev1' where
    r1: "run_files (entry d) (cs_files xs) = (Completed, fs1, ev1')"
    and e1: "ev1 = Listdir # ev1' @ [Print done_message]"
    by (auto simp: run_def split: prod.splits outcome.splits)
  from m have "set ys = set xs" by (rule mset_eq_setD)
  then have s: "set (cs_files ys) = set (cs_files xs)" by (simp add: cs_files_def)
  from run_files_completed [OF r1] have cp: "\<forall>n\<in>set (cs_files xs). can_process (entry d) n"
    and fs1: "fs1 = patched (entry d) (set (cs_files xs))" by auto
  from cp s have "\<forall>n\<in>set (cs_files ys). can_process (entry d) n" by simp
  from run_files_completes [OF this] s fs1 obtain ev2' where
    r2: "run_files (entry d) (cs_files ys) = (Completed, fs1, ev2')" by auto
  from run_files_reports [OF r1] run_files_reports [OF r2] s
  have "distinct (fixed_names ev1')" "distinct (fixed_names ev2')"
    "set (fixed_names ev2') = set (fixed_names ev1')" by auto
  then have "mset (fixed_names ev2') = mset (fixed_names ev1')"
    using set_eq_iff_mset_eq_distinct by blast
  with r2 e1 show ?thesis
    by (simp add: run_def fixed_names_append done_message_not_fixed)
qed

lemma run_dir_ab:
  "run dir_ab =
     (Raised PermissionError, files_ab_fixed,
      [Listdir, OpenRead ''A.cs'', OpenWrite ''A.cs'', Print ''Fixed: A.cs'', OpenRead ''Z.cs''])"
proof -
  have "run_files (entry dir_ab) ([''A.cs''] @ [''Z.cs'']) =
     (Raised PermissionError, files_ab_fixed,
      [OpenRead ''A.cs'', OpenWrite ''A.cs'', Print ''Fixed: A.cs''] @ [OpenRead ''Z.cs''])"
    unfolding run_files_append [OF run_files_ab_pre] by (simp add: process_z_after)
  then show ?thesis
    using cs_files_ab by (simp add: run_def listdir_dir_ab)
qed

lemma run_dir_ba:
  "run (dir_ab\<lparr>listdir := Inr [''Z.cs'', ''A.cs'']\<rparr>) =
     (Raised PermissionError, entry dir_ab, [Listdir, OpenRead ''Z.cs''])"
  by (simp add: run_def cs_files_ba process_z_before)

text \<open>
  C9 as stated fails when a run raises: with a file to fix and an unreadable file, the
  order that takes the file to fix first rewrites it, and the other order ends before
  reaching it.
\<close>

theorem order_matters_on_failure:
  "listdir dir_ab = Inr [''A.cs'', ''Z.cs'']
   \<and> fst (snd (run dir_ab)) ''A.cs'' = Some (Regular True True (Some text_a_fixed))
   \<and> fst (snd (run (dir_ab\<lparr>listdir := Inr [''Z.cs'', ''A.cs'']\<rparr>))) ''A.cs'' =
       Some (Regular True True (Some text_a))
   \<and> text_a_fixed \<noteq> text_a"
proof -
  have "files_ab_fixed ''A.cs'' = Some (Regular True True (Some text_a_fixed))"
    by (simp add: files_ab_fixed_def)
  moreover have "entry dir_ab ''A.cs'' = Some (Regular True True (Some text_a))"
    by (simp add: dir_ab_def)
  ultimately show ?thesis
    by (simp add: run_dir_ab run_dir_ba listdir_dir_ab text_a_changes)
qed

text \<open>
  C9, amended. When the run over a listing completes, the run over any permutation of
  that listing completes too and leaves the same files; the two runs report the same
  names as fixed, possibly in another order.
\<close>

theorem order_independent_when_completed:
  assumes "mset ys = mset xs" and "listdir d = Inr xs" and "run d = (Completed, fs1, ev1)"
  shows "\<exists>ev2. run (d\<lparr>listdir := Inr ys\<rparr>) = (Completed, fs1, ev2)
           \<and> mset (fixed_names ev2) = mset (fixed_names ev1)"
  using assms by (rule run_order_independent)

theorem order_independent_when_completed_witness:
  "mset [''B.cs'', ''notes.txt'', ''A.cs''] = mset [''A.cs'', ''notes.txt'', ''B.cs'']
   \<and> listdir example_dir = Inr [''A.cs'', ''notes.txt'', ''B.cs'']
   \<and> run example_dir =
       (Completed, example_files(''A.cs'' \<mapsto> Regular True True (Some text_a_fixed)),
        [Listdir, OpenRead ''A.cs'', OpenWrite ''A.cs'', Print ''Fixed: A.cs'', OpenRead ''B.cs'',
         Print done_message])
   \<and> (\<exists>ev2. run (example_dir\<lparr>listdir := Inr [''B.cs'', ''notes.txt'', ''A.cs'']\<rparr>) =
          (Completed, example_files(''A.cs'' \<mapsto> Regular True True (Some text_a_fixed)), ev2)
        \<and> mset (fixed_names ev2) = {#''A.cs''#})"
proof -
  have m: "mset [''B.cs'', ''notes.txt'', ''A.cs''] = mset [''A.cs'', ''notes.txt'', ''B.cs'']"
    by simp
  have l: "listdir example_dir = Inr [''A.cs'', ''notes.txt'', ''B.cs'']"
    by (simp add: example_dir_def)
  have f: "fixed_names [Listdir, OpenRead ''A.cs'', OpenWrite ''A.cs'', Print ''Fixed: A.cs'',
      OpenRead ''B.cs'', Print done_message] = [''A.cs'']"
    by (simp add: done_message_not_fixed)
  from order_independent_when_completed [OF m l run_example]
  have "\<exists>ev2. run (example_dir\<lparr>listdir := Inr [''B.cs'', ''notes.txt'', ''A.cs'']\<rparr>) =
          (Completed, example_files(''A.cs'' \<mapsto> Regular True True (Some text_a_fixed)), ev2)
        \<and> mset (fixed_names ev2) = {#''A.cs''#}"
    unfolding f by simp
  with m l run_example show ?thesis by blast
qed

end
